theory Spec2Isabelle
  imports Main "HOL-Library.Word" "HOL-Library.AList"
begin

section \<open>JavaScript strings\<close>

text \<open>
  A JavaScript string is a sequence of 16-bit UTF-16 code units; \<open>.length\<close>, indexing and
  regular expressions without the \<open>u\<close> flag all work on code units. A code point outside
  the Basic Multilingual Plane is a surrogate pair, that is two code units.
\<close>

type_synonym cu = "16 word"
type_synonym jsstring = "cu list"

text \<open>An ASCII literal of the source as a JavaScript string.\<close>

definition str :: "string \<Rightarrow> jsstring" where
  "str s = map of_char s"

text \<open>
  The code units that \<open>String.prototype.trim\<close> strips and that \<open>\s\<close> matches: the
  ECMAScript WhiteSpace and LineTerminator productions.
\<close>

definition isWhiteSpace :: "cu \<Rightarrow> bool" where
  "isWhiteSpace c =
     (c \<in> set [0x09, 0x0A, 0x0B, 0x0C, 0x0D, 0x20, 0xA0, 0x1680, 0x2028, 0x2029,
                0x202F, 0x205F, 0x3000, 0xFEFF]
      \<or> (0x2000 \<le> c \<and> c \<le> 0x200A))"

definition isDigit :: "cu \<Rightarrow> bool" where
  "isDigit c = (0x30 \<le> c \<and> c \<le> 0x39)"

definition isUpper :: "cu \<Rightarrow> bool" where
  "isUpper c = (0x41 \<le> c \<and> c \<le> 0x5A)"

definition isLower :: "cu \<Rightarrow> bool" where
  "isLower c = (0x61 \<le> c \<and> c \<le> 0x7A)"

text \<open>The class \<open>\w\<close> that decides the word boundary \<open>\b\<close>: \<open>[A-Za-z0-9_]\<close>.\<close>

definition isWordChar :: "cu \<Rightarrow> bool" where
  "isWordChar c = (isUpper c \<or> isLower c \<or> isDigit c \<or> c = 0x5F)"

definition trim :: "jsstring \<Rightarrow> jsstring" where
  "trim s = rev (dropWhile isWhiteSpace (rev (dropWhile isWhiteSpace s)))"

text \<open>
  The code points of a string: a high surrogate followed by a low surrogate is one code
  point, every other code unit (a lone surrogate too) is one code point.
\<close>

definition isHighSurrogate :: "cu \<Rightarrow> bool" where
  "isHighSurrogate c = (0xD800 \<le> c \<and> c \<le> 0xDBFF)"

definition isLowSurrogate :: "cu \<Rightarrow> bool" where
  "isLowSurrogate c = (0xDC00 \<le> c \<and> c \<le> 0xDFFF)"

fun codePointCount :: "jsstring \<Rightarrow> nat" where
  "codePointCount [] = 0"
| "codePointCount [c] = 1"
| "codePointCount (c # d # cs) =
     (if isHighSurrogate c \<and> isLowSurrogate d then Suc (codePointCount cs)
      else Suc (codePointCount (d # cs)))"

text \<open>\<open>String(n)\<close> for a non-negative integer: its decimal digits.\<close>

fun numberToString :: "nat \<Rightarrow> jsstring" where
  "numberToString n =
     (if n < 10 then [0x30 + of_nat n]
      else numberToString (n div 10) @ [0x30 + of_nat (n mod 10)])"

text \<open>
  \<open>toLowerCase\<close> and \<open>toUpperCase\<close> apply the Unicode case mappings of the runtime. The
  tables are not part of the repository, so both functions are parameters of the model.
\<close>

record js_runtime =
  toLowerCase :: "jsstring \<Rightarrow> jsstring"
  toUpperCase :: "jsstring \<Rightarrow> jsstring"

text \<open>The case mappings restricted to ASCII letters, for evaluating concrete inputs.\<close>

definition asciiLower :: "cu \<Rightarrow> cu" where
  "asciiLower c = (if isUpper c then c + 0x20 else c)"

definition asciiUpper :: "cu \<Rightarrow> cu" where
  "asciiUpper c = (if isLower c then c - 0x20 else c)"

definition asciiRuntime :: js_runtime where
  "asciiRuntime = \<lparr>toLowerCase = map asciiLower, toUpperCase = map asciiUpper\<rparr>"

section \<open>Regular expressions\<close>

text \<open>
  The fragment of the regular-expression language that the source uses: one code unit of
  a class, a greedy \<open>+\<close> and \<open>?\<close> on a class, sequence, alternation, the anchors \<open>^\<close> and
  \<open>$\<close> (no \<open>m\<close> flag) and the word boundary \<open>\b\<close>.
\<close>

datatype re =
    Chr "cu \<Rightarrow> bool"
  | Plus "cu \<Rightarrow> bool"
  | Opt "cu \<Rightarrow> bool"
  | Seq re re
  | Alt re re
  | Bol
  | Eol
  | WordB
  | Eps

text \<open>
  \<open>ends r s i\<close> lists the end indices of the matches of \<open>r\<close> that start at index \<open>i\<close> of
  \<open>s\<close>, in the order in which the backtracking matcher of ECMAScript tries them; the
  matcher commits to the first one.
\<close>

fun ends :: "re \<Rightarrow> jsstring \<Rightarrow> nat \<Rightarrow> nat list" where
  "ends (Chr p) s i = (if i < length s \<and> p (s ! i) then [Suc i] else [])"
| "ends (Plus p) s i = map (\<lambda>k. i + k) (rev [1 ..< Suc (length (takeWhile p (drop i s)))])"
| "ends (Opt p) s i = (if i < length s \<and> p (s ! i) then [Suc i, i] else [i])"
| "ends (Seq a b) s i = concat (map (ends b s) (ends a s i))"
| "ends (Alt a b) s i = ends a s i @ ends b s i"
| "ends Bol s i = (if i = 0 then [i] else [])"
| "ends Eol s i = (if i = length s then [i] else [])"
| "ends WordB s i =
     (let a = (0 < i \<and> i \<le> length s \<and> isWordChar (s ! (i - 1)));
          b = (i < length s \<and> isWordChar (s ! i))
      in if a \<noteq> b then [i] else [])"
| "ends Eps s i = [i]"

text \<open>A literal: a sequence of single code units, each given by its class.\<close>

definition lit :: "(cu \<Rightarrow> bool) list \<Rightarrow> re" where
  "lit ps = foldr (\<lambda>p r. Seq (Chr p) r) ps Eps"

text \<open>A pattern character written in lower case, matched exactly.\<close>

definition exactly :: "char \<Rightarrow> cu \<Rightarrow> bool" where
  "exactly x c = (c = of_char x)"

text \<open>
  A pattern character under the \<open>i\<close> flag (no \<open>u\<close> flag). Canonicalize upper-cases a single
  code unit and never maps a code unit of 128 or more to one below 128, so an ASCII
  pattern character matches exactly its own two ASCII cases.
\<close>

definition ignoreCase :: "char \<Rightarrow> cu \<Rightarrow> bool" where
  "ignoreCase x c = (asciiLower c = asciiLower (of_char x))"

text \<open>
  The search loop of RegExpBuiltinExec: the first index \<open>j\<close> from \<open>i\<close> on at which the
  pattern matches, with the end of the match the matcher commits to.
\<close>

definition search :: "re \<Rightarrow> jsstring \<Rightarrow> nat \<Rightarrow> (nat \<times> nat) option" where
  "search r s i =
     (case find (\<lambda>j. ends r s j \<noteq> []) [i ..< Suc (length s)] of
        None \<Rightarrow> None
      | Some j \<Rightarrow> Some (j, hd (ends r s j)))"

text \<open>
  A RegExp object. Its \<open>lastIndex\<close> is mutable: \<open>exec\<close> and \<open>test\<close> on a global regular
  expression start at \<open>lastIndex\<close> and store the end of the match there (0 after a
  failure); without the \<open>g\<close> flag they start at 0 and leave the object as it is.
\<close>

record regexp =
  source :: re
  global :: bool
  lastIndex :: nat

definition RegExp :: "re \<Rightarrow> bool \<Rightarrow> regexp" where
  "RegExp r g = \<lparr>source = r, global = g, lastIndex = 0\<rparr>"

definition regexp_exec :: "regexp \<Rightarrow> jsstring \<Rightarrow> (nat \<times> nat) option \<times> regexp" where
  "regexp_exec R s =
     (case search (source R) s (if global R then lastIndex R else 0) of
        None \<Rightarrow> (None, if global R then R\<lparr>lastIndex := 0\<rparr> else R)
      | Some (j, e) \<Rightarrow> (Some (j, e), if global R then R\<lparr>lastIndex := e\<rparr> else R))"

definition regexp_test :: "regexp \<Rightarrow> jsstring \<Rightarrow> bool \<times> regexp" where
  "regexp_test R s = (case regexp_exec R s of (m, R') \<Rightarrow> (m \<noteq> None, R'))"

lemma ends_bounds: "e \<in> set (ends r s i) \<Longrightarrow> i \<le> length s \<Longrightarrow> i \<le> e \<and> e \<le> length s"
proof (induction r arbitrary: i e)
  case (Plus p)
  have "length (takeWhile p (drop i s)) \<le> length s - i"
    using length_takeWhile_le [of p "drop i s"] by simp
  with Plus show ?case by auto
next
  case (Seq a b)
  then obtain m where m: "m \<in> set (ends a s i)" and e: "e \<in> set (ends b s m)"
    by auto
  from Seq.IH(1) [OF m Seq.prems(2)] have "i \<le> m" "m \<le> length s" by simp_all
  with Seq.IH(2) [OF e] show ?case by simp
qed (auto split: if_splits simp: Let_def)

lemma search_bounds:
  assumes "search r s i = Some (j, e)"
  shows "i \<le> j \<and> j \<le> e \<and> e \<le> length s"
proof -
  from assms have f: "find (\<lambda>j. ends r s j \<noteq> []) [i ..< Suc (length s)] = Some j"
    and e: "e = hd (ends r s j)"
    by (auto simp del: upt_Suc simp: search_def split: option.splits)
  from f have "j \<in> set [i ..< Suc (length s)]" and ne: "ends r s j \<noteq> []"
    by (auto simp del: upt_Suc simp: find_Some_iff)
  then have j: "i \<le> j" "j \<le> length s" "ends r s j \<noteq> []"
    by auto
  with e have "e \<in> set (ends r s j)" by simp
  with ends_bounds [of e r s j] j show ?thesis by simp
qed

text \<open>
  The loop of \<open>String.prototype.match\<close> and \<open>replace\<close> with a global regular expression:
  \<open>exec\<close> again and again from \<open>lastIndex\<close> (0 at first), one index further after an
  empty match, until it fails. The result lists the matches as (start, end).
\<close>

function matchLoop :: "re \<Rightarrow> jsstring \<Rightarrow> nat \<Rightarrow> (nat \<times> nat) list" where
  "matchLoop r s i =
     (case search r s i of
        None \<Rightarrow> []
      | Some (j, e) \<Rightarrow> (j, e) # matchLoop r s (if e = j then Suc e else e))"
  by pat_completeness auto
termination
proof (relation "measure (\<lambda>(r, s, i). Suc (length s) - i)")
  fix r :: re and s :: jsstring and i x2 j e
  assume "search r s i = Some x2" and "(j, e) = x2"
  then have "i \<le> j \<and> j \<le> e \<and> e \<le> length s"
    using search_bounds [of r s i j e] by simp
  then show "((r, s, if e = j then Suc e else e), r, s, i)
      \<in> measure (\<lambda>(r, s, i). Suc (length s) - i)"
    by auto
qed simp

declare matchLoop.simps [simp del]

text \<open>\<open>s.match(/r/g)\<close>: the matched substrings, or null when there is none.\<close>

definition string_match :: "re \<Rightarrow> jsstring \<Rightarrow> jsstring list option" where
  "string_match r s =
     (case matchLoop r s 0 of
        [] \<Rightarrow> None
      | ms \<Rightarrow> Some (map (\<lambda>(j, e). take (e - j) (drop j s)) ms))"

text \<open>
  \<open>s.replace(/r/g, rep)\<close> for a replacement without \<open>$\<close>: the pieces between the matches,
  with \<open>rep\<close> in place of each match.
\<close>

fun splice :: "jsstring \<Rightarrow> nat \<Rightarrow> (nat \<times> nat) list \<Rightarrow> jsstring \<Rightarrow> jsstring" where
  "splice s pos [] rep = drop pos s"
| "splice s pos ((j, e) # ms) rep = take (j - pos) (drop pos s) @ rep @ splice s e ms rep"

definition string_replace :: "re \<Rightarrow> jsstring \<Rightarrow> jsstring \<Rightarrow> jsstring" where
  "string_replace r rep s = splice s 0 (matchLoop r s 0) rep"

text \<open>\<open>s.split(c)\<close> for a separator of one code unit.\<close>

fun split_on :: "cu \<Rightarrow> jsstring \<Rightarrow> jsstring list" where
  "split_on c [] = [[]]"
| "split_on c (x # xs) =
     (if x = c then [] # split_on c xs
      else (case split_on c xs of [] \<Rightarrow> [[x]] | p # ps \<Rightarrow> (x # p) # ps))"

definition seq :: "re list \<Rightarrow> re" where
  "seq rs = foldr Seq rs Eps"

definition chars :: "(char \<Rightarrow> cu \<Rightarrow> bool) \<Rightarrow> string \<Rightarrow> re" where
  "chars f xs = lit (map f xs)"

section \<open>The rule table\<close>

text \<open>
  A rule object. Every property is optional: a property that a rule does not declare reads
  as \<open>undefined\<close>. The callback \<open>additionalValidation(value, rules)\<close> reads of \<open>rules\<close> only
  \<open>rules.allowedValues\<close>, so the model hands it that property (the empty list when the rule
  declares none; no callback of the table reads it then).
\<close>

record rule =
  required :: "bool option"
  minLength :: "nat option"
  maxLength :: "nat option"
  pattern :: "regexp option"
  message :: "jsstring option"
  allowedValues :: "jsstring list option"
  sanitize :: "(jsstring \<Rightarrow> jsstring) option"
  additionalValidation :: "(jsstring \<Rightarrow> jsstring list \<Rightarrow> jsstring option) option"

type_synonym rule_table = "(jsstring \<times> rule) list"

text \<open>\<open>/^[a-zA-Z\s'-]+$/\<close>\<close>

definition name_class :: "cu \<Rightarrow> bool" where
  "name_class c = (isLower c \<or> isUpper c \<or> isWhiteSpace c \<or> c = 0x27 \<or> c = 0x2D)"

definition name_pattern :: re where
  "name_pattern = seq [Bol, Plus name_class, Eol]"

text \<open>\<open>/^[^\s@]+@[^\s@]+\.[^\s@]+$/\<close>\<close>

definition email_class :: "cu \<Rightarrow> bool" where
  "email_class c = (\<not> (isWhiteSpace c \<or> c = 0x40))"

definition email_pattern :: re where
  "email_pattern =
     seq [Bol, Plus email_class, Chr (exactly CHR ''@''), Plus email_class,
          Chr (exactly CHR ''.''), Plus email_class, Eol]"

text \<open>\<open>/^[\d\s\-\(\)\+]+$/\<close>\<close>

definition phone_class :: "cu \<Rightarrow> bool" where
  "phone_class c =
     (isDigit c \<or> isWhiteSpace c \<or> c = 0x2D \<or> c = 0x28 \<or> c = 0x29 \<or> c = 0x2B)"

definition phone_pattern :: re where
  "phone_pattern = seq [Bol, Plus phone_class, Eol]"

text \<open>\<open>value.trim().replace(/\s+/g, ' ')\<close>, the sanitizer of name and message.\<close>

definition sanitize_collapse :: "jsstring \<Rightarrow> jsstring" where
  "sanitize_collapse v = string_replace (Plus isWhiteSpace) (str '' '') (trim v)"

text \<open>\<open>value.trim().toLowerCase()\<close>, the sanitizer of email.\<close>

definition sanitize_email :: "js_runtime \<Rightarrow> jsstring \<Rightarrow> jsstring" where
  "sanitize_email rt v = toLowerCase rt (trim v)"

text \<open>
  The callback of email. The regular expression \<open>/\.\./\<close> is built at each call and has no
  \<open>g\<close> flag. \<open>value.split('@')\<close> never is empty, so \<open>[0]\<close> is its first element.
\<close>

definition email_additionalValidation :: "jsstring \<Rightarrow> jsstring list \<Rightarrow> jsstring option" where
  "email_additionalValidation v rules_allowedValues =
     (if fst (regexp_test (RegExp (chars exactly ''..'') False) v)
      then Some (str ''Email cannot contain consecutive dots'')
      else
        (let localPart = (case split_on 0x40 v of [] \<Rightarrow> [] | p # ps \<Rightarrow> p)
         in if length localPart > 64 then Some (str ''Email local part too long'')
            else None))"

text \<open>The callback of phone; \<open>/\D/g\<close> is built at each call.\<close>

definition phone_additionalValidation :: "jsstring \<Rightarrow> jsstring list \<Rightarrow> jsstring option" where
  "phone_additionalValidation v rules_allowedValues =
     (let digits = string_replace (Chr (\<lambda>c. \<not> isDigit c)) [] v
      in if length digits < 10 then Some (str ''Phone number must contain at least 10 digits'')
         else if length digits > 15 then Some (str ''Phone number must not exceed 15 digits'')
         else None)"

definition service_allowedValues :: "jsstring list" where
  "service_allowedValues =
     [str ''ac-installation'', str ''ac-repair'', str ''ac-maintenance'',
      str ''heating-installation'', str ''heating-repair'', str ''emergency-service'',
      str ''other'']"

definition service_additionalValidation :: "jsstring \<Rightarrow> jsstring list \<Rightarrow> jsstring option" where
  "service_additionalValidation v rules_allowedValues =
     (if \<not> List.member rules_allowedValues v
      then Some (str ''Please select a valid service option'')
      else None)"

text \<open>
  The three regular expressions of the callback of message, each with the flags \<open>gi\<close>:
  \<open>/https?:\/\/[^\s]+/gi\<close>, \<open>/<script/gi\<close> and \<open>/\b(viagra|cialis|casino|lottery)\b/gi\<close>.
\<close>

definition url_pattern :: re where
  "url_pattern =
     seq [chars ignoreCase ''http'', Opt (ignoreCase CHR ''s''), chars ignoreCase ''://'',
          Plus (\<lambda>c. \<not> isWhiteSpace c)]"

definition script_pattern :: re where
  "script_pattern = chars ignoreCase ''<script''"

definition spam_pattern :: re where
  "spam_pattern =
     seq [WordB,
          Alt (chars ignoreCase ''viagra'')
            (Alt (chars ignoreCase ''cialis'')
              (Alt (chars ignoreCase ''casino'') (chars ignoreCase ''lottery''))),
          WordB]"

text \<open>
  The \<open>for\<close> loop over the patterns: \<open>test\<close> on each RegExp object in turn, returning at the
  first that matches.
\<close>

fun anyTest :: "regexp list \<Rightarrow> jsstring \<Rightarrow> bool" where
  "anyTest [] v = False"
| "anyTest (R # Rs) v = (if fst (regexp_test R v) then True else anyTest Rs v)"

text \<open>
  The callback of message. The array \<open>suspiciousPatterns\<close> and its RegExp objects are built
  at each call, so every \<open>lastIndex\<close> is 0 when the loop starts; the loop runs over
  \<open>suspiciousPatterns.slice(1)\<close>.
\<close>

definition message_additionalValidation :: "jsstring \<Rightarrow> jsstring list \<Rightarrow> jsstring option" where
  "message_additionalValidation v rules_allowedValues =
     (let suspiciousPatterns =
            [RegExp url_pattern True, RegExp script_pattern True, RegExp spam_pattern True];
          urls = string_match url_pattern v;
          urlCount = (case urls of None \<Rightarrow> 0 | Some us \<Rightarrow> length us)
      in if urlCount > 2 then Some (str ''Message contains too many links'')
         else if anyTest (drop 1 suspiciousPatterns) v
         then Some (str ''Message contains prohibited content'')
         else None)"

definition VALIDATION_RULES :: "js_runtime \<Rightarrow> rule_table" where
  "VALIDATION_RULES rt =
     [(str ''name'',
       \<lparr>required = Some True, minLength = Some 2, maxLength = Some 100,
        pattern = Some (RegExp name_pattern False),
        message = Some (str
          ''Please enter a valid name (letters, spaces, hyphens, and apostrophes only)''),
        allowedValues = None,
        sanitize = Some sanitize_collapse,
        additionalValidation = None\<rparr>),
      (str ''email'',
       \<lparr>required = Some True, minLength = None, maxLength = Some 254,
        pattern = Some (RegExp email_pattern False),
        message = Some (str ''Please enter a valid email address''),
        allowedValues = None,
        sanitize = Some (sanitize_email rt),
        additionalValidation = Some email_additionalValidation\<rparr>),
      (str ''phone'',
       \<lparr>required = Some True, minLength = Some 10, maxLength = Some 20,
        pattern = Some (RegExp phone_pattern False),
        message = Some (str ''Please enter a valid phone number''),
        allowedValues = None,
        sanitize = Some trim,
        additionalValidation = Some phone_additionalValidation\<rparr>),
      (str ''service'',
       \<lparr>required = Some True, minLength = None, maxLength = None,
        pattern = None,
        message = Some (str ''Please select a service''),
        allowedValues = Some service_allowedValues,
        sanitize = Some trim,
        additionalValidation = Some service_additionalValidation\<rparr>),
      (str ''message'',
       \<lparr>required = Some False, minLength = Some 0, maxLength = Some 1000,
        pattern = None,
        message = Some (str ''Message must not exceed 1000 characters''),
        allowedValues = None,
        sanitize = Some sanitize_collapse,
        additionalValidation = Some message_additionalValidation\<rparr>)]"

text \<open>
  \<open>VALIDATION_RULES[fieldName]\<close> is a property lookup on an object literal, so it follows
  the prototype chain: a name that \<open>Object.prototype\<close> defines yields a function or object,
  which is truthy and has none of the properties of a rule.
\<close>

definition Object_prototype_keys :: "jsstring list" where
  "Object_prototype_keys =
     [str ''constructor'', str ''__defineGetter__'', str ''__defineSetter__'',
      str ''hasOwnProperty'', str ''__lookupGetter__'', str ''__lookupSetter__'',
      str ''isPrototypeOf'', str ''propertyIsEnumerable'', str ''toString'',
      str ''valueOf'', str ''__proto__'', str ''toLocaleString'']"

definition inherited :: rule where
  "inherited =
     \<lparr>required = None, minLength = None, maxLength = None, pattern = None, message = None,
      allowedValues = None, sanitize = None, additionalValidation = None\<rparr>"

definition lookupRules :: "rule_table \<Rightarrow> jsstring \<Rightarrow> rule option" where
  "lookupRules T fieldName =
     (case map_of T fieldName of
        Some rules \<Rightarrow> Some rules
      | None \<Rightarrow> if List.member Object_prototype_keys fieldName then Some inherited else None)"

section \<open>The field evaluator\<close>

record ValidationResult =
  valid :: bool
  error :: "jsstring option"
  sanitizedValue :: jsstring

text \<open>
  \<open>formatFieldName\<close>. The model covers the names for which \<open>nameMap[fieldName]\<close> is a string
  or undefined; on a name that \<open>Object.prototype\<close> defines the source yields an object
  instead, and \<open>validateField\<close> does not call it on such a name.
\<close>

definition nameMap :: "(jsstring \<times> jsstring) list" where
  "nameMap =
     [(str ''name'', str ''Name''), (str ''email'', str ''Email''),
      (str ''phone'', str ''Phone''), (str ''service'', str ''Service''),
      (str ''message'', str ''Message'')]"

definition formatFieldName :: "js_runtime \<Rightarrow> jsstring \<Rightarrow> jsstring" where
  "formatFieldName rt fieldName =
     (case map_of nameMap fieldName of
        Some n \<Rightarrow> n
      | None \<Rightarrow> toUpperCase rt (take 1 fieldName) @ drop 1 fieldName)"

text \<open>
  \<open>validateField\<close>. The rule table is passed in and returned, because \<open>rules.pattern.test\<close>
  works on a RegExp object that lives in the table from one call to the next.
\<close>

definition validateField ::
  "js_runtime \<Rightarrow> rule_table \<Rightarrow> jsstring \<Rightarrow> jsstring \<Rightarrow> ValidationResult \<times> rule_table"
where
  "validateField rt T fieldName v =
     (case lookupRules T fieldName of
        None \<Rightarrow> (\<lparr>valid = True, error = None, sanitizedValue = v\<rparr>, T)
      | Some rules \<Rightarrow>
          (let sanitized = (case sanitize rules of Some f \<Rightarrow> f v | None \<Rightarrow> trim v)
           in if required rules = Some True \<and> sanitized = []
              then (\<lparr>valid = False,
                     error = Some (formatFieldName rt fieldName @ str '' is required''),
                     sanitizedValue = sanitized\<rparr>, T)
              else if sanitized = [] \<and> required rules \<noteq> Some True
              then (\<lparr>valid = True, error = None, sanitizedValue = sanitized\<rparr>, T)
              else if (case minLength rules of
                         None \<Rightarrow> False | Some m \<Rightarrow> length sanitized < m)
              then (\<lparr>valid = False,
                     error = Some (formatFieldName rt fieldName @ str '' must be at least ''
                               @ (case minLength rules of None \<Rightarrow> [] | Some m \<Rightarrow> numberToString m)
                               @ str '' characters''),
                     sanitizedValue = sanitized\<rparr>, T)
              else if (case maxLength rules of
                         None \<Rightarrow> False | Some m \<Rightarrow> length sanitized > m)
              then (\<lparr>valid = False,
                     error = Some (formatFieldName rt fieldName @ str '' must not exceed ''
                               @ (case maxLength rules of None \<Rightarrow> [] | Some m \<Rightarrow> numberToString m)
                               @ str '' characters''),
                     sanitizedValue = sanitized\<rparr>, T)
              else
                (let (matches, T') =
                       (case pattern rules of
                          None \<Rightarrow> (True, T)
                        | Some R \<Rightarrow>
                            (case regexp_test R sanitized of
                               (b, R') \<Rightarrow>
                                 (b, AList.update fieldName (rules\<lparr>pattern := Some R'\<rparr>) T)))
                 in if \<not> matches
                    then (\<lparr>valid = False, error = message rules,
                           sanitizedValue = sanitized\<rparr>, T')
                    else
                      (case (case additionalValidation rules of
                               None \<Rightarrow> None
                             | Some f \<Rightarrow>
                                 f sanitized
                                   (case allowedValues rules of None \<Rightarrow> [] | Some l \<Rightarrow> l)) of
                         Some additionalError \<Rightarrow>
                           if additionalError \<noteq> []
                           then (\<lparr>valid = False, error = Some additionalError,
                                  sanitizedValue = sanitized\<rparr>, T')
                           else (\<lparr>valid = True, error = None,
                                  sanitizedValue = sanitized\<rparr>, T')
                       | None \<Rightarrow>
                           (\<lparr>valid = True, error = None, sanitizedValue = sanitized\<rparr>, T')))))"

section \<open>The form evaluator\<close>

text \<open>
  A record of the caller is the list of its own properties in the order of
  \<open>Object.entries\<close>. \<open>formData[fieldName] || ''\<close> is the empty string for a missing property
  and for an empty one.
\<close>

type_synonym form_data = "(jsstring \<times> jsstring) list"

definition formValue :: "form_data \<Rightarrow> jsstring \<Rightarrow> jsstring" where
  "formValue formData fieldName =
     (case map_of formData fieldName of
        None \<Rightarrow> []
      | Some v \<Rightarrow> if v = [] then [] else v)"

record FormResult =
  isValid :: bool
  errors :: "(jsstring \<times> jsstring option) list"
  sanitizedData :: "(jsstring \<times> jsstring) list"

text \<open>
  The body of the \<open>forEach\<close> callback of \<open>validateForm\<close>: \<open>errors.set\<close> and the assignment to
  \<open>sanitizedData[fieldName]\<close> replace the entry of the key or append a new one.
\<close>

definition validateForm_step ::
  "js_runtime \<Rightarrow> form_data \<Rightarrow> FormResult \<times> rule_table \<Rightarrow> jsstring \<Rightarrow> FormResult \<times> rule_table"
where
  "validateForm_step rt formData acc fieldName =
     (case acc of (res, T) \<Rightarrow>
        (case validateField rt T fieldName (formValue formData fieldName) of
           (result, T') \<Rightarrow>
             (let res' = res\<lparr>sanitizedData :=
                           AList.update fieldName (sanitizedValue result) (sanitizedData res)\<rparr>
              in if \<not> valid result
                 then (res'\<lparr>errors := AList.update fieldName (error result) (errors res'),
                            isValid := False\<rparr>, T')
                 else (res', T'))))"

text \<open>\<open>validateForm\<close>: the callback on every key of the rule table, in the table's order.\<close>

definition validateForm :: "js_runtime \<Rightarrow> rule_table \<Rightarrow> form_data \<Rightarrow> FormResult \<times> rule_table" where
  "validateForm rt T formData =
     foldl (validateForm_step rt formData)
       (\<lparr>isValid = True, errors = [], sanitizedData = []\<rparr>, T) (map fst T)"

text \<open>
  \<open>validateFieldsFast\<close>: \<open>validateField\<close> on each entry in turn, returning the first invalid
  result together with its field name, or null.
\<close>

fun validateFieldsFast ::
  "js_runtime \<Rightarrow> rule_table \<Rightarrow> form_data \<Rightarrow> (jsstring \<times> ValidationResult) option \<times> rule_table"
where
  "validateFieldsFast rt T [] = (None, T)"
| "validateFieldsFast rt T ((fieldName, v) # entries) =
     (case validateField rt T fieldName v of
        (result, T') \<Rightarrow>
          if \<not> valid result then (Some (fieldName, result), T')
          else validateFieldsFast rt T' entries)"

section \<open>The rule table is never written\<close>

text \<open>
  The only mutable state that \<open>validateField\<close> touches is the \<open>lastIndex\<close> of the RegExp
  objects in the rule table. None of them has the \<open>g\<close> flag, so \<open>test\<close> leaves them as they
  are, and every pattern comes with a default message.
\<close>


definition wf_rule :: "rule \<Rightarrow> bool" where
  "wf_rule r = (case pattern r of None \<Rightarrow> True | Some R \<Rightarrow> \<not> global R \<and> message r \<noteq> None)"

definition wf_table :: "rule_table \<Rightarrow> bool" where
  "wf_table T = list_all (\<lambda>(k, r). wf_rule r) T"

text \<open>
  The steps of \<open>validateField\<close> by name: the sanitized value, the two length checks, the
  pattern check, the callback, the three messages built from the field name, and the
  result that the steps give for a sanitized value.
\<close>

definition sanitizedOf :: "rule \<Rightarrow> jsstring \<Rightarrow> jsstring" where
  "sanitizedOf r v = (case sanitize r of Some g \<Rightarrow> g v | None \<Rightarrow> trim v)"

definition tooShort :: "rule \<Rightarrow> jsstring \<Rightarrow> bool" where
  "tooShort r s = (case minLength r of None \<Rightarrow> False | Some m \<Rightarrow> length s < m)"

definition tooLong :: "rule \<Rightarrow> jsstring \<Rightarrow> bool" where
  "tooLong r s = (case maxLength r of None \<Rightarrow> False | Some m \<Rightarrow> length s > m)"

definition patternOk :: "rule \<Rightarrow> jsstring \<Rightarrow> bool" where
  "patternOk r s = (case pattern r of None \<Rightarrow> True | Some R \<Rightarrow> fst (regexp_test R s))"

definition customError :: "rule \<Rightarrow> jsstring \<Rightarrow> jsstring option" where
  "customError r s =
     (case additionalValidation r of
        None \<Rightarrow> None
      | Some g \<Rightarrow> g s (case allowedValues r of None \<Rightarrow> [] | Some l \<Rightarrow> l))"

definition requiredError :: "js_runtime \<Rightarrow> jsstring \<Rightarrow> jsstring" where
  "requiredError rt f = formatFieldName rt f @ str '' is required''"

definition minError :: "js_runtime \<Rightarrow> jsstring \<Rightarrow> rule \<Rightarrow> jsstring" where
  "minError rt f r =
     formatFieldName rt f @ str '' must be at least ''
       @ (case minLength r of None \<Rightarrow> [] | Some m \<Rightarrow> numberToString m) @ str '' characters''"

definition maxError :: "js_runtime \<Rightarrow> jsstring \<Rightarrow> rule \<Rightarrow> jsstring" where
  "maxError rt f r =
     formatFieldName rt f @ str '' must not exceed ''
       @ (case maxLength r of None \<Rightarrow> [] | Some m \<Rightarrow> numberToString m) @ str '' characters''"

definition outcome :: "js_runtime \<Rightarrow> jsstring \<Rightarrow> rule \<Rightarrow> jsstring \<Rightarrow> ValidationResult" where
  "outcome rt f r s =
     (if required r = Some True \<and> s = []
      then \<lparr>valid = False, error = Some (requiredError rt f), sanitizedValue = s\<rparr>
      else if s = [] then \<lparr>valid = True, error = None, sanitizedValue = s\<rparr>
      else if tooShort r s
      then \<lparr>valid = False, error = Some (minError rt f r), sanitizedValue = s\<rparr>
      else if tooLong r s
      then \<lparr>valid = False, error = Some (maxError rt f r), sanitizedValue = s\<rparr>
      else if \<not> patternOk r s
      then \<lparr>valid = False, error = message r, sanitizedValue = s\<rparr>
      else if customError r s \<noteq> None \<and> customError r s \<noteq> Some []
      then \<lparr>valid = False, error = customError r s, sanitizedValue = s\<rparr>
      else \<lparr>valid = True, error = None, sanitizedValue = s\<rparr>)"

lemma wf_VALIDATION_RULES: "wf_table (VALIDATION_RULES rt)"
  by (simp add: wf_table_def wf_rule_def VALIDATION_RULES_def RegExp_def)

lemma wf_inherited: "wf_rule inherited"
  by (simp add: wf_rule_def inherited_def)

lemma wf_lookupRules:
  assumes "wf_table T" and "lookupRules T f = Some r"
  shows "wf_rule r"
proof (cases "map_of T f")
  case None
  with assms(2) show ?thesis
    by (auto simp: lookupRules_def wf_inherited split: if_splits)
next
  case (Some r')
  with assms(2) have "r' = r" by (simp add: lookupRules_def)
  with Some have "(f, r) \<in> set T" by (simp add: map_of_SomeD)
  with assms(1) show ?thesis by (auto simp: wf_table_def list_all_iff)
qed

lemma regexp_test_not_global: "\<not> global R \<Longrightarrow> snd (regexp_test R s) = R"
  by (simp add: regexp_test_def regexp_exec_def split: option.splits prod.splits)

lemma pattern_step:
  assumes "wf_table T" and "lookupRules T f = Some r"
  shows "(case pattern r of
            None \<Rightarrow> (True, T)
          | Some R \<Rightarrow>
              (case regexp_test R s of
                 (b, R') \<Rightarrow> (b, AList.update f (r\<lparr>pattern := Some R'\<rparr>) T)))
         = (patternOk r s, T)"
proof (cases "pattern r")
  case None
  then show ?thesis by (simp add: patternOk_def)
next
  case (Some R)
  from wf_lookupRules [OF assms] Some have ng: "\<not> global R"
    by (simp add: wf_rule_def)
  from assms(2) Some have "map_of T f = Some r"
    by (auto simp: lookupRules_def inherited_def split: option.splits if_splits)
  then have upd: "AList.update f r T = T"
    by (rule update_triv)
  have "r\<lparr>pattern := Some R\<rparr> = r" using Some by simp
  with upd have upd': "AList.update f (r\<lparr>pattern := Some R\<rparr>) T = T" by metis
  obtain b R' where t: "regexp_test R s = (b, R')"
    by (cases "regexp_test R s")
  with regexp_test_not_global [OF ng, of s] have "R' = R" by simp
  with Some t upd' show ?thesis by (simp add: patternOk_def)
qed

lemma validateField_wf:
  assumes "wf_table T" and "lookupRules T f = Some r"
  shows "validateField rt T f v = (outcome rt f r (sanitizedOf r v), T)"
proof -
  have "validateField rt T f v =
     (let sanitized = sanitizedOf r v
      in if required r = Some True \<and> sanitized = []
         then (\<lparr>valid = False, error = Some (requiredError rt f), sanitizedValue = sanitized\<rparr>, T)
         else if sanitized = [] \<and> required r \<noteq> Some True
         then (\<lparr>valid = True, error = None, sanitizedValue = sanitized\<rparr>, T)
         else if tooShort r sanitized
         then (\<lparr>valid = False, error = Some (minError rt f r), sanitizedValue = sanitized\<rparr>, T)
         else if tooLong r sanitized
         then (\<lparr>valid = False, error = Some (maxError rt f r), sanitizedValue = sanitized\<rparr>, T)
         else
           (let (matches, T') = (patternOk r sanitized, T)
            in if \<not> matches
               then (\<lparr>valid = False, error = message r, sanitizedValue = sanitized\<rparr>, T')
               else
                 (case customError r sanitized of
                    Some additionalError \<Rightarrow>
                      if additionalError \<noteq> []
                      then (\<lparr>valid = False, error = Some additionalError,
                             sanitizedValue = sanitized\<rparr>, T')
                      else (\<lparr>valid = True, error = None, sanitizedValue = sanitized\<rparr>, T')
                  | None \<Rightarrow> (\<lparr>valid = True, error = None, sanitizedValue = sanitized\<rparr>, T'))))"
    unfolding validateField_def assms(2) option.case
      sanitizedOf_def [symmetric] tooShort_def [symmetric] tooLong_def [symmetric]
      requiredError_def [symmetric] minError_def [symmetric] maxError_def [symmetric]
      customError_def [symmetric] pattern_step [OF assms]
    by (rule refl)
  also have "\<dots> = (outcome rt f r (sanitizedOf r v), T)"
    by (cases "customError r (sanitizedOf r v)") (auto simp: outcome_def Let_def)
  finally show ?thesis .
qed

lemma validateField_table:
  assumes "wf_table T"
  shows "snd (validateField rt T f v) = T"
proof (cases "lookupRules T f")
  case None
  then show ?thesis by (simp add: validateField_def)
next
  case (Some r)
  from validateField_wf [OF assms Some] show ?thesis by simp
qed

lemma validateField_error_iff:
  assumes "wf_table T"
  shows "(error (fst (validateField rt T f v)) \<noteq> None) = (\<not> valid (fst (validateField rt T f v)))"
proof (cases "lookupRules T f")
  case None
  then show ?thesis by (simp add: validateField_def)
next
  case (Some r)
  from wf_lookupRules [OF assms Some] have "\<not> patternOk r (sanitizedOf r v) \<Longrightarrow> message r \<noteq> None"
    by (auto simp: wf_rule_def patternOk_def split: option.splits)
  then show ?thesis
    unfolding validateField_wf [OF assms Some] by (auto simp: outcome_def)
qed

text \<open>
  Claim C6. For every field name, known or unknown, and every raw value, the result of
  \<open>validateField\<close> has an error message (not null) if and only if its \<open>valid\<close> flag is false.
\<close>

theorem C6_error_iff_invalid:
  "(error (fst (validateField rt (VALIDATION_RULES rt) fieldName v)) \<noteq> None)
     = (\<not> valid (fst (validateField rt (VALIDATION_RULES rt) fieldName v)))"
  by (rule validateField_error_iff [OF wf_VALIDATION_RULES])

lemma lookupRules_None:
  "f \<notin> fst ` set T \<Longrightarrow> \<not> List.member Object_prototype_keys f \<Longrightarrow> lookupRules T f = None"
  using map_of_eq_None_iff [of T f] by (simp add: lookupRules_def)

lemma lookupRules_inherited:
  "f \<notin> fst ` set T \<Longrightarrow> List.member Object_prototype_keys f \<Longrightarrow> lookupRules T f = Some inherited"
  using map_of_eq_None_iff [of T f] by (simp add: lookupRules_def)

text \<open>
  Claim C3, as amended. For a field name that is not a key of the rule table,
  \<open>validateField\<close> returns valid, without error, and the raw value unchanged as
  \<open>sanitizedValue\<close>; the value is trimmed only when the name is one that \<open>Object.prototype\<close>
  defines, for which the lookup yields an object without \<open>sanitize\<close>.
\<close>

theorem C3_unknown_field:
  assumes "fieldName \<notin> fst ` set (VALIDATION_RULES rt)"
  shows "fst (validateField rt (VALIDATION_RULES rt) fieldName v) =
           \<lparr>valid = True, error = None,
            sanitizedValue = (if List.member Object_prototype_keys fieldName then trim v else v)\<rparr>"
proof (cases "List.member Object_prototype_keys fieldName")
  case True
  from lookupRules_inherited [OF assms True] True show ?thesis
    by (simp add: validateField_def inherited_def Let_def)
next
  case False
  from lookupRules_None [OF assms False] False show ?thesis
    by (simp add: validateField_def)
qed

text \<open>
  Claim C3 as stated fails: for the unknown field \<open>company\<close> and the raw value \<open>" x "\<close> the
  result carries \<open>" x "\<close>, not the trimmed \<open>"x"\<close>.
\<close>

theorem C3_counterexample:
  "str ''company'' \<notin> fst ` set (VALIDATION_RULES asciiRuntime)
   \<and> sanitizedValue (fst (validateField asciiRuntime (VALIDATION_RULES asciiRuntime)
        (str ''company'') (str '' x ''))) = str '' x ''
   \<and> trim (str '' x '') = str ''x''
   \<and> str '' x '' \<noteq> str ''x''"
  by code_simp

theorem C3_unknown_field_witness:
  "fst (validateField asciiRuntime (VALIDATION_RULES asciiRuntime) (str ''company'') (str '' x ''))
     = \<lparr>valid = True, error = None, sanitizedValue = str '' x ''\<rparr>
   \<and> fst (validateField asciiRuntime (VALIDATION_RULES asciiRuntime) (str ''toString'') (str '' x ''))
     = \<lparr>valid = True, error = None, sanitizedValue = str ''x''\<rparr>"
proof -
  have k: "str ''company'' \<notin> fst ` set (VALIDATION_RULES asciiRuntime)"
    "str ''toString'' \<notin> fst ` set (VALIDATION_RULES asciiRuntime)"
    by code_simp+
  have m: "\<not> List.member Object_prototype_keys (str ''company'')"
    "List.member Object_prototype_keys (str ''toString'')"
    "trim (str '' x '') = str ''x''"
    by code_simp+
  show ?thesis
    using C3_unknown_field [OF k(1), of "str '' x ''"] C3_unknown_field [OF k(2), of "str '' x ''"] m
    by simp
qed

text \<open>
  A global regular expression that is shared between calls does remember: the second
  \<open>test\<close> on the same object starts behind the first match and fails.
\<close>

lemma shared_global_regexp_remembers:
  "fst (regexp_test (RegExp script_pattern True) (str ''<script'')) = True
   \<and> fst (regexp_test (snd (regexp_test (RegExp script_pattern True) (str ''<script'')))
          (str ''<script'')) = False"
  by code_simp

text \<open>
  Claim C9. \<open>validateField\<close> is deterministic and keeps no state: a call leaves the rule
  table, with the \<open>lastIndex\<close> of every RegExp object in it, as it was, so a call that comes
  after any other call returns what it returns on the fresh table. The regular expressions
  of the message callback are built inside the call and are gone when it returns.
\<close>

theorem C9_deterministic:
  "snd (validateField rt (VALIDATION_RULES rt) g w) = VALIDATION_RULES rt
   \<and> validateField rt (snd (validateField rt (VALIDATION_RULES rt) g w)) fieldName v
     = validateField rt (VALIDATION_RULES rt) fieldName v"
  by (simp add: validateField_table [OF wf_VALIDATION_RULES])

section \<open>The form evaluator and the fast path\<close>

lemma rule_keys:
  "map fst (VALIDATION_RULES rt) =
     [str ''name'', str ''email'', str ''phone'', str ''service'', str ''message'']"
  by (simp add: VALIDATION_RULES_def)

text \<open>
  What one round of the \<open>forEach\<close> callback adds to the result.
\<close>

definition addResult :: "jsstring \<Rightarrow> ValidationResult \<Rightarrow> FormResult \<Rightarrow> FormResult" where
  "addResult k result res =
     (let res' = res\<lparr>sanitizedData := AList.update k (sanitizedValue result) (sanitizedData res)\<rparr>
      in if \<not> valid result
         then res'\<lparr>errors := AList.update k (error result) (errors res'), isValid := False\<rparr>
         else res')"

lemma addResult_isValid: "isValid (addResult k r res) = (isValid res \<and> valid r)"
  by (simp add: addResult_def Let_def)

lemma addResult_errors:
  "fst ` set (errors (addResult k r res)) = fst ` set (errors res) \<union> {x. x = k \<and> \<not> valid r}"
  by (auto simp: addResult_def Let_def dom_update)

lemma addResult_sanitizedData:
  "fst ` set (sanitizedData (addResult k r res)) = insert k (fst ` set (sanitizedData res))"
  by (simp add: addResult_def Let_def dom_update)

lemma validateForm_step_wf:
  assumes "wf_table T"
  shows "validateForm_step rt fd (res, T) k =
           (addResult k (fst (validateField rt T k (formValue fd k))) res, T)"
proof -
  obtain result T' where vf: "validateField rt T k (formValue fd k) = (result, T')"
    by force
  with validateField_table [OF assms, of rt k "formValue fd k"] have "T' = T" by simp
  with vf show ?thesis by (simp add: validateForm_step_def addResult_def Let_def)
qed

lemma validateForm_fold:
  assumes "wf_table T"
  shows "foldl (validateForm_step rt fd) (res, T) ks =
           (foldl (\<lambda>res k. addResult k (fst (validateField rt T k (formValue fd k))) res) res ks, T)"
  by (induction ks arbitrary: res) (simp_all add: validateForm_step_wf [OF assms])

lemma fold_isValid:
  "isValid (foldl (\<lambda>res k. addResult k (F k) res) res ks)
     = (isValid res \<and> (\<forall>k \<in> set ks. valid (F k)))"
  by (induction ks arbitrary: res) (auto simp: addResult_isValid)

lemma fold_errors:
  "fst ` set (errors (foldl (\<lambda>res k. addResult k (F k) res) res ks))
     = fst ` set (errors res) \<union> {k \<in> set ks. \<not> valid (F k)}"
  by (induction ks arbitrary: res) (auto simp: addResult_errors)

lemma fold_sanitizedData:
  "fst ` set (sanitizedData (foldl (\<lambda>res k. addResult k (F k) res) res ks))
     = fst ` set (sanitizedData res) \<union> set ks"
  by (induction ks arbitrary: res) (auto simp: addResult_sanitizedData)

text \<open>
  Claim C1. For every record, \<open>validateForm\<close> returns a result whose \<open>valid\<close> flag is the
  conjunction of the \<open>valid\<close> flags that \<open>validateField\<close> gives on the fields of the rule
  table (each with the value the form evaluator reads for it), whose \<open>errors\<close> has exactly
  the invalid rule-table fields as keys, and whose \<open>sanitizedData\<close> has exactly the five
  field names of the rule table as keys.
\<close>

theorem C1_validateForm_result:
  "isValid (fst (validateForm rt (VALIDATION_RULES rt) formData)) =
     (\<forall>k \<in> set (map fst (VALIDATION_RULES rt)).
        valid (fst (validateField rt (VALIDATION_RULES rt) k (formValue formData k))))
   \<and> fst ` set (errors (fst (validateForm rt (VALIDATION_RULES rt) formData))) =
       {k \<in> set (map fst (VALIDATION_RULES rt)).
          \<not> valid (fst (validateField rt (VALIDATION_RULES rt) k (formValue formData k)))}
   \<and> fst ` set (sanitizedData (fst (validateForm rt (VALIDATION_RULES rt) formData))) =
       {str ''name'', str ''email'', str ''phone'', str ''service'', str ''message''}
   \<and> set (map fst (VALIDATION_RULES rt)) =
       {str ''name'', str ''email'', str ''phone'', str ''service'', str ''message''}"
proof -
  have k: "set (map fst (VALIDATION_RULES rt)) =
       {str ''name'', str ''email'', str ''phone'', str ''service'', str ''message''}"
    by (simp only: rule_keys list.set)
  have s: "fst ` set (sanitizedData (fst (validateForm rt (VALIDATION_RULES rt) formData))) =
       set (map fst (VALIDATION_RULES rt))"
    unfolding validateForm_def validateForm_fold [OF wf_VALIDATION_RULES] fst_conv
      fold_sanitizedData
    by simp
  show ?thesis
    unfolding s unfolding validateForm_def validateForm_fold [OF wf_VALIDATION_RULES] fst_conv
      fold_isValid fold_errors
    using k by simp
qed


text \<open>
  The value of a field in a record, read as the claim words it: the empty string when the
  field is absent.
\<close>

definition fieldOrEmpty :: "form_data \<Rightarrow> jsstring \<Rightarrow> jsstring" where
  "fieldOrEmpty fd k = (case map_of fd k of None \<Rightarrow> [] | Some v \<Rightarrow> v)"

lemma formValue_fieldOrEmpty: "formValue fd k = fieldOrEmpty fd k"
  by (simp add: formValue_def fieldOrEmpty_def split: option.splits)

text \<open>
  Claim C8. Two records that agree on the five rule-table fields, an absent field counting
  as the empty string, get the same result from \<open>validateForm\<close>: keys outside the rule
  table are ignored and a missing rule-table field is evaluated as the empty string.
\<close>

theorem C8_validateForm_reads_rule_fields:
  assumes "\<forall>k \<in> {str ''name'', str ''email'', str ''phone'', str ''service'', str ''message''}.
             fieldOrEmpty formData1 k = fieldOrEmpty formData2 k"
  shows "validateForm rt (VALIDATION_RULES rt) formData1
           = validateForm rt (VALIDATION_RULES rt) formData2"
proof -
  have "set (map fst (VALIDATION_RULES rt)) =
       {str ''name'', str ''email'', str ''phone'', str ''service'', str ''message''}"
    by (simp only: rule_keys list.set)
  with assms have "\<And>k. k \<in> set (map fst (VALIDATION_RULES rt)) \<Longrightarrow>
      formValue formData1 k = formValue formData2 k"
    by (simp only: formValue_fieldOrEmpty)
  then have "foldl (\<lambda>res k. addResult k
        (fst (validateField rt (VALIDATION_RULES rt) k (formValue formData1 k))) res)
        \<lparr>isValid = True, errors = [], sanitizedData = []\<rparr> (map fst (VALIDATION_RULES rt))
      = foldl (\<lambda>res k. addResult k
        (fst (validateField rt (VALIDATION_RULES rt) k (formValue formData2 k))) res)
        \<lparr>isValid = True, errors = [], sanitizedData = []\<rparr> (map fst (VALIDATION_RULES rt))"
    by (intro foldl_cong refl) simp
  then show ?thesis
    unfolding validateForm_def validateForm_fold [OF wf_VALIDATION_RULES] by simp
qed

lemma validateFieldsFast_Cons_wf:
  assumes "wf_table T"
  shows "validateFieldsFast rt T ((k, v) # es) =
     (if \<not> valid (fst (validateField rt T k v))
      then (Some (k, fst (validateField rt T k v)), T)
      else validateFieldsFast rt T es)"
proof -
  obtain result T' where vf: "validateField rt T k v = (result, T')"
    by force
  with validateField_table [OF assms, of rt k v] have "T' = T" by simp
  with vf show ?thesis by simp
qed

lemma validateFieldsFast_None:
  assumes "wf_table T"
  shows "(fst (validateFieldsFast rt T es) = None)
           = (\<forall>(k, v) \<in> set es. valid (fst (validateField rt T k v)))"
proof (induction es)
  case Nil
  show ?case by simp
next
  case (Cons e es)
  obtain k v where e: "e = (k, v)" by (cases e)
  show ?case
    unfolding e validateFieldsFast_Cons_wf [OF assms] using Cons.IH by simp
qed

lemma validateFieldsFast_Some:
  assumes "wf_table T" and "fst (validateFieldsFast rt T es) = Some (k, r)"
  shows "\<exists>v. (k, v) \<in> set es \<and> r = fst (validateField rt T k v) \<and> \<not> valid r"
  using assms(2)
proof (induction es)
  case Nil
  then show ?case by simp
next
  case (Cons e es)
  obtain k' v' where e: "e = (k', v')" by (cases e)
  show ?case
  proof (cases "valid (fst (validateField rt T k' v'))")
    case True
    with Cons.prems have "fst (validateFieldsFast rt T es) = Some (k, r)"
      unfolding e validateFieldsFast_Cons_wf [OF assms(1)] by simp
    from Cons.IH [OF this] show ?thesis by auto
  next
    case False
    with Cons.prems have "k = k'" "r = fst (validateField rt T k' v')"
      unfolding e validateFieldsFast_Cons_wf [OF assms(1)] by auto
    with False e show ?thesis by auto
  qed
qed

text \<open>
  Claim C10. For a record whose keys are exactly the five rule-table fields,
  \<open>validateFieldsFast\<close> returns null if and only if \<open>validateForm\<close> returns valid; when it
  returns an object, that object is the field name of one of the entries together with
  the result of \<open>validateField\<close> on that entry, and this result is invalid.
\<close>

theorem C10_validateFieldsFast_agrees:
  assumes "distinct (map fst entries)"
    and "set (map fst entries) =
           {str ''name'', str ''email'', str ''phone'', str ''service'', str ''message''}"
  shows "((fst (validateFieldsFast rt (VALIDATION_RULES rt) entries) = None)
            = isValid (fst (validateForm rt (VALIDATION_RULES rt) entries)))
     \<and> (\<forall>k r. fst (validateFieldsFast rt (VALIDATION_RULES rt) entries) = Some (k, r) \<longrightarrow>
           (\<exists>v. (k, v) \<in> set entries
              \<and> r = fst (validateField rt (VALIDATION_RULES rt) k v) \<and> \<not> valid r))"
proof -
  let ?T = "VALIDATION_RULES rt"
  have keys: "set (map fst ?T) = set (map fst entries)"
    unfolding assms(2) by (simp only: rule_keys list.set)
  have val: "formValue entries k = v" if "(k, v) \<in> set entries" for k v
    using that assms(1) by (simp add: formValue_def)
  have "isValid (fst (validateForm rt ?T entries))
      = (\<forall>k \<in> set (map fst ?T). valid (fst (validateField rt ?T k (formValue entries k))))"
    unfolding validateForm_def validateForm_fold [OF wf_VALIDATION_RULES] fst_conv fold_isValid
    by simp
  also have "\<dots> = (\<forall>k \<in> set (map fst entries).
      valid (fst (validateField rt ?T k (formValue entries k))))"
    unfolding keys ..
  also have "\<dots> = (\<forall>(k, v) \<in> set entries. valid (fst (validateField rt ?T k v)))"
    using val by force
  also have "\<dots> = (fst (validateFieldsFast rt ?T entries) = None)"
    by (rule validateFieldsFast_None [OF wf_VALIDATION_RULES, symmetric])
  finally have a: "(fst (validateFieldsFast rt ?T entries) = None)
      = isValid (fst (validateForm rt ?T entries))" ..
  from validateFieldsFast_Some [OF wf_VALIDATION_RULES]
  have b: "\<forall>k r. fst (validateFieldsFast rt ?T entries) = Some (k, r) \<longrightarrow>
           (\<exists>v. (k, v) \<in> set entries \<and> r = fst (validateField rt ?T k v) \<and> \<not> valid r)"
    by blast
  from a b show ?thesis by (rule conjI)
qed


text \<open>
  A record with a valid name and a malformed email address, the other fields missing.
\<close>

definition form1 :: form_data where
  "form1 = [(str ''name'', str ''Jo''), (str ''email'', str ''bad'')]"

theorem C1_validateForm_result_witness:
  "isValid (fst (validateForm asciiRuntime (VALIDATION_RULES asciiRuntime) form1)) = False
   \<and> fst ` set (errors (fst (validateForm asciiRuntime (VALIDATION_RULES asciiRuntime) form1)))
       = {str ''email'', str ''phone'', str ''service''}
   \<and> fst ` set (sanitizedData (fst (validateForm asciiRuntime (VALIDATION_RULES asciiRuntime) form1)))
       = {str ''name'', str ''email'', str ''phone'', str ''service'', str ''message''}"
proof -
  let ?ok = "\<lambda>k. valid (fst (validateField asciiRuntime (VALIDATION_RULES asciiRuntime) k
                (formValue form1 k)))"
  have ok: "?ok (str ''name'')" "\<not> ?ok (str ''email'')" "\<not> ?ok (str ''phone'')"
    "\<not> ?ok (str ''service'')" "?ok (str ''message'')"
    by code_simp+
  note c = C1_validateForm_result [of asciiRuntime form1]
  from c have keys: "set (map fst (VALIDATION_RULES asciiRuntime)) =
      {str ''name'', str ''email'', str ''phone'', str ''service'', str ''message''}"
    by (elim conjE)
  from c have "isValid (fst (validateForm asciiRuntime (VALIDATION_RULES asciiRuntime) form1))
      = (\<forall>k \<in> set (map fst (VALIDATION_RULES asciiRuntime)). ?ok k)"
    by (elim conjE)
  with ok have v: "isValid (fst (validateForm asciiRuntime (VALIDATION_RULES asciiRuntime) form1))
      = False"
    unfolding keys by simp
  from c have "fst ` set (errors (fst (validateForm asciiRuntime (VALIDATION_RULES asciiRuntime) form1)))
      = {k \<in> set (map fst (VALIDATION_RULES asciiRuntime)). \<not> ?ok k}"
    by (elim conjE)
  moreover have "{k \<in> {str ''name'', str ''email'', str ''phone'', str ''service'',
      str ''message''}. \<not> ?ok k} = {str ''email'', str ''phone'', str ''service''}"
    using ok by auto
  ultimately have e: "fst ` set (errors (fst (validateForm asciiRuntime
      (VALIDATION_RULES asciiRuntime) form1))) = {str ''email'', str ''phone'', str ''service''}"
    unfolding keys by simp
  from c have s: "fst ` set (sanitizedData (fst (validateForm asciiRuntime
      (VALIDATION_RULES asciiRuntime) form1)))
       = {str ''name'', str ''email'', str ''phone'', str ''service'', str ''message''}"
    by (elim conjE)
  from v e s show ?thesis by (intro conjI)
qed

text \<open>
  Two records that agree on the rule-table fields: one has an unknown key, the other an
  empty message.
\<close>

definition form2 :: form_data where
  "form2 = [(str ''name'', str ''Jo''), (str ''company'', str ''ACME'')]"

definition form3 :: form_data where
  "form3 = [(str ''message'', []), (str ''name'', str ''Jo'')]"

theorem C8_validateForm_reads_rule_fields_witness:
  "fieldOrEmpty form2 (str ''name'') = fieldOrEmpty form3 (str ''name'')
   \<and> fieldOrEmpty form2 (str ''email'') = fieldOrEmpty form3 (str ''email'')
   \<and> fieldOrEmpty form2 (str ''phone'') = fieldOrEmpty form3 (str ''phone'')
   \<and> fieldOrEmpty form2 (str ''service'') = fieldOrEmpty form3 (str ''service'')
   \<and> fieldOrEmpty form2 (str ''message'') = fieldOrEmpty form3 (str ''message'')
   \<and> validateForm asciiRuntime (VALIDATION_RULES asciiRuntime) form2
       = validateForm asciiRuntime (VALIDATION_RULES asciiRuntime) form3"
proof -
  have h: "\<forall>k \<in> {str ''name'', str ''email'', str ''phone'', str ''service'', str ''message''}.
      fieldOrEmpty form2 k = fieldOrEmpty form3 k"
    by (simp add: fieldOrEmpty_def form2_def form3_def str_def)
  from h C8_validateForm_reads_rule_fields [OF h, of asciiRuntime] show ?thesis
    by simp
qed

text \<open>
  A record with the five fields in an order other than the table's; phone and name are
  invalid.
\<close>

definition form4 :: form_data where
  "form4 = [(str ''message'', []), (str ''service'', str ''ac-repair''),
            (str ''phone'', str ''123''), (str ''email'', str ''jo@x.com''), (str ''name'', [])]"

theorem C10_validateFieldsFast_agrees_witness:
  "distinct (map fst form4)
   \<and> set (map fst form4) =
       {str ''name'', str ''email'', str ''phone'', str ''service'', str ''message''}
   \<and> fst (validateFieldsFast asciiRuntime (VALIDATION_RULES asciiRuntime) form4) \<noteq> None
   \<and> \<not> isValid (fst (validateForm asciiRuntime (VALIDATION_RULES asciiRuntime) form4))"
proof -
  have d: "distinct (map fst form4)"
    by (simp add: form4_def str_def)
  have s: "set (map fst form4) =
       {str ''name'', str ''email'', str ''phone'', str ''service'', str ''message''}"
    by (auto simp: form4_def)
  have n: "fst (validateFieldsFast asciiRuntime (VALIDATION_RULES asciiRuntime) form4) \<noteq> None"
    by code_simp
  from C10_validateFieldsFast_agrees [OF d s, of asciiRuntime] n d s show ?thesis
    by simp
qed

section \<open>The order of the checks\<close>

lemma lookupRules_own: "map_of T f = Some r \<Longrightarrow> lookupRules T f = Some r"
  by (simp add: lookupRules_def)

lemma nameMap_keys:
  assumes "map_of (VALIDATION_RULES rt) f = Some r"
  shows "map_of nameMap f = Some (formatFieldName rt f)"
proof -
  from assms have "f \<in> set (map fst (VALIDATION_RULES rt))"
    by (metis map_of_eq_None_iff option.distinct(1) set_map)
  then have "f \<in> fst ` set nameMap"
    unfolding rule_keys by (simp add: nameMap_def)
  then obtain n where "map_of nameMap f = Some n"
    by (metis map_of_eq_None_iff not_Some_eq)
  then show ?thesis by (simp add: formatFieldName_def)
qed

text \<open>
  Claim C2. For a field of the rule table, \<open>validateField\<close> sanitizes the raw value first
  (with the rule's \<open>sanitize\<close>, or \<open>trim\<close> when there is none) and returns the sanitized value;
  then it runs the checks in the order required, empty and optional, \<open>minLength\<close>,
  \<open>maxLength\<close>, pattern, callback, and the first check that fails decides the error. A
  required field whose sanitized value is empty fails with \<open><Field> is required\<close>, where
  \<open><Field>\<close> is the entry of \<open>nameMap\<close>; an optional field whose sanitized value is empty
  succeeds. Every check reads the sanitized value only: two raw values with the same
  sanitized value get the same result.
\<close>

theorem C2_validateField_order:
  assumes "map_of (VALIDATION_RULES rt) fieldName = Some r"
  shows "let s = sanitizedOf r v;
             res = fst (validateField rt (VALIDATION_RULES rt) fieldName v)
         in sanitizedValue res = s
          \<and> map_of nameMap fieldName = Some (formatFieldName rt fieldName)
          \<and> (required r = Some True \<and> s = [] \<longrightarrow>
               \<not> valid res
               \<and> error res = Some (formatFieldName rt fieldName @ str '' is required''))
          \<and> (required r \<noteq> Some True \<and> s = [] \<longrightarrow> valid res \<and> error res = None)
          \<and> (s \<noteq> [] \<and> tooShort r s \<longrightarrow>
               \<not> valid res \<and> error res = Some (minError rt fieldName r))
          \<and> (s \<noteq> [] \<and> \<not> tooShort r s \<and> tooLong r s \<longrightarrow>
               \<not> valid res \<and> error res = Some (maxError rt fieldName r))
          \<and> (s \<noteq> [] \<and> \<not> tooShort r s \<and> \<not> tooLong r s \<and> \<not> patternOk r s \<longrightarrow>
               \<not> valid res \<and> error res = message r)
          \<and> (s \<noteq> [] \<and> \<not> tooShort r s \<and> \<not> tooLong r s \<and> patternOk r s
                \<and> customError r s \<noteq> None \<and> customError r s \<noteq> Some [] \<longrightarrow>
               \<not> valid res \<and> error res = customError r s)
          \<and> (s \<noteq> [] \<and> \<not> tooShort r s \<and> \<not> tooLong r s \<and> patternOk r s
                \<and> (customError r s = None \<or> customError r s = Some []) \<longrightarrow>
               valid res \<and> error res = None)
          \<and> (\<forall>v'. sanitizedOf r v' = s \<longrightarrow>
                fst (validateField rt (VALIDATION_RULES rt) fieldName v') = res)"
proof -
  note vf = validateField_wf [OF wf_VALIDATION_RULES lookupRules_own [OF assms]]
  have n: "map_of nameMap fieldName = Some (formatFieldName rt fieldName)"
    by (rule nameMap_keys [OF assms])
  have o: "sanitizedValue (outcome rt fieldName r s) = s" for s
    by (simp add: outcome_def)
  show ?thesis
    unfolding Let_def vf fst_conv o
    by (intro conjI impI allI n refl; (elim conjE)?) (auto simp add: outcome_def requiredError_def)
qed

theorem C2_validateField_order_witness:
  "map_of (VALIDATION_RULES asciiRuntime) (str ''name'') = Some (snd (VALIDATION_RULES asciiRuntime ! 0))
   \<and> required (snd (VALIDATION_RULES asciiRuntime ! 0)) = Some True
   \<and> sanitizedOf (snd (VALIDATION_RULES asciiRuntime ! 0)) (str ''   '') = []
   \<and> error (fst (validateField asciiRuntime (VALIDATION_RULES asciiRuntime) (str ''name'') (str ''   '')))
       = Some (str ''Name is required'')"
proof -
  let ?r = "snd (VALIDATION_RULES asciiRuntime ! 0)"
  have h: "map_of (VALIDATION_RULES asciiRuntime) (str ''name'') = Some ?r"
    by (simp add: VALIDATION_RULES_def)
  have q: "required ?r = Some True"
    by (simp add: VALIDATION_RULES_def)
  have s: "sanitizedOf ?r (str ''   '') = []"
    by code_simp
  have n: "formatFieldName asciiRuntime (str ''name'') @ str '' is required'' = str ''Name is required''"
    by code_simp
  from C2_validateField_order [OF h, of "str ''   ''"] have
    "required ?r = Some True \<and> sanitizedOf ?r (str ''   '') = [] \<longrightarrow>
       error (fst (validateField asciiRuntime (VALIDATION_RULES asciiRuntime) (str ''name'') (str ''   '')))
       = Some (formatFieldName asciiRuntime (str ''name'') @ str '' is required'')"
    unfolding Let_def by blast
  with q s have "error (fst (validateField asciiRuntime (VALIDATION_RULES asciiRuntime)
       (str ''name'') (str ''   ''))) = Some (str ''Name is required'')"
    unfolding n by blast
  with h q s show ?thesis by (intro conjI)
qed

section \<open>The sanitizers\<close>

text \<open>
  What \<open>replace\<close> with \<open>/p+/g\<close> computes, as a recursion on the string: every maximal run
  of code units of the class becomes one copy of the replacement.
\<close>

function collapse :: "(cu \<Rightarrow> bool) \<Rightarrow> jsstring \<Rightarrow> jsstring \<Rightarrow> jsstring" where
  "collapse p rep [] = []"
| "collapse p rep (c # cs) =
     (if p c then rep @ collapse p rep (dropWhile p cs) else c # collapse p rep cs)"
  by pat_completeness auto
termination
  by (relation "measure (\<lambda>(p, rep, cs). length cs)")
     (auto simp: le_imp_less_Suc length_dropWhile_le)

lemma search_unfold:
  "search r s i =
     (if i \<le> length s
      then if ends r s i \<noteq> [] then Some (i, hd (ends r s i)) else search r s (Suc i)
      else None)"
proof (cases "i \<le> length s")
  case True
  then have "[i ..< Suc (length s)] = i # [Suc i ..< Suc (length s)]"
    by (simp add: upt_conv_Cons)
  then show ?thesis using True by (simp add: search_def del: upt_Suc)
next
  case False
  then show ?thesis by (simp add: search_def)
qed

lemma ends_Plus_empty: "(ends (Plus p) s i = []) = (takeWhile p (drop i s) = [])"
  by (cases "takeWhile p (drop i s)") simp_all

lemma hd_ends_Plus:
  "takeWhile p (drop i s) \<noteq> [] \<Longrightarrow>
     hd (ends (Plus p) s i) = i + length (takeWhile p (drop i s))"
  by (cases "length (takeWhile p (drop i s))") (simp_all add: hd_map)

lemma search_Plus:
  "i \<le> length s \<Longrightarrow>
   search (Plus p) s i =
     (let a = takeWhile (\<lambda>c. \<not> p c) (drop i s); b = dropWhile (\<lambda>c. \<not> p c) (drop i s)
      in if b = [] then None
         else Some (i + length a, i + length a + length (takeWhile p b)))"
proof (induction "length s - i" arbitrary: i)
  case 0
  then have "i = length s" by simp
  then show ?case
    by (subst search_unfold) (simp add: search_unfold [of _ _ "Suc (length s)"])
next
  case (Suc n)
  then have lt: "i < length s" by simp
  then have d: "drop i s = s ! i # drop (Suc i) s"
    by (simp add: Cons_nth_drop_Suc)
  show ?case
  proof (cases "p (s ! i)")
    case True
    with lt d show ?thesis
      by (subst search_unfold) (simp add: hd_ends_Plus ends_Plus_empty Let_def del: ends.simps)
  next
    case False
    from Suc have ih: "search (Plus p) s (Suc i) =
     (let a = takeWhile (\<lambda>c. \<not> p c) (drop (Suc i) s); b = dropWhile (\<lambda>c. \<not> p c) (drop (Suc i) s)
      in if b = [] then None
         else Some (Suc i + length a, Suc i + length a + length (takeWhile p b)))"
      by simp
    from False lt d show ?thesis
      by (subst search_unfold) (simp add: ih ends_Plus_empty Let_def del: ends.simps)
  qed
qed

lemma collapse_append_not:
  "\<forall>x \<in> set a. \<not> p x \<Longrightarrow> collapse p rep (a @ b) = a @ collapse p rep b"
  by (induction a) simp_all

lemma drop_length_takeWhile: "drop (length (takeWhile P xs)) xs = dropWhile P xs"
  by (induction xs) simp_all

lemma drop_after_takeWhile:
  "drop (length (takeWhile P xs) + n) xs = drop n (dropWhile P xs)"
  by (induction xs) simp_all

lemma take_length_takeWhile: "take (length (takeWhile P xs)) xs = takeWhile P xs"
  by (induction xs) simp_all

lemma splice_matchLoop_Plus:
  "i \<le> length s \<Longrightarrow> splice s i (matchLoop (Plus p) s i) rep = collapse p rep (drop i s)"
proof (induction "length s - i" arbitrary: i rule: less_induct)
  case less
  let ?a = "takeWhile (\<lambda>c. \<not> p c) (drop i s)"
  let ?b = "dropWhile (\<lambda>c. \<not> p c) (drop i s)"
  have ab: "drop i s = ?a @ ?b" by simp
  have na: "\<forall>x \<in> set ?a. \<not> p x" by (auto dest: set_takeWhileD)
  show ?case
  proof (cases ?b)
    case Nil
    with less.prems have "search (Plus p) s i = None"
      by (simp add: search_Plus Let_def)
    then have "matchLoop (Plus p) s i = []"
      by (subst matchLoop.simps) simp
    moreover have "drop i s = ?a" by (metis Nil ab append_Nil2)
    moreover have "collapse p rep (?a @ []) = ?a @ collapse p rep []"
      using na by (rule collapse_append_not)
    ultimately show ?thesis by simp
  next
    case (Cons c cs)
    then have pc: "p c"
      using hd_dropWhile [of "\<lambda>c. \<not> p c" "drop i s"] by simp
    let ?n = "length (takeWhile p ?b)"
    let ?j = "i + length ?a"
    let ?e = "?j + ?n"
    from Cons pc have n1: "0 < ?n" by simp
    from Cons less.prems have se: "search (Plus p) s i = Some (?j, ?e)"
      by (simp add: search_Plus Let_def)
    have ml: "matchLoop (Plus p) s i = (?j, ?e) # matchLoop (Plus p) s ?e"
      using n1 by (subst matchLoop.simps) (simp add: se del: ends.simps)
    have "length ?a + length ?b = length (?a @ ?b)" by (simp only: length_append)
    also have "\<dots> = length (drop i s)" by (simp only: takeWhile_dropWhile_id)
    also have "\<dots> = length s - i" by simp
    finally have "length ?a + length ?b = length s - i" .
    moreover have "?n \<le> length ?b" by (rule length_takeWhile_le)
    ultimately have le: "?e \<le> length s" using less.prems by simp
    from n1 less.prems le have "length s - ?e < length s - i" by linarith
    from less.hyps [OF this le]
    have ih: "splice s ?e (matchLoop (Plus p) s ?e) rep = collapse p rep (drop ?e s)" .
    have "?e = length ?a + ?n + i" by linarith
    then have "drop ?e s = drop (length ?a + ?n) (drop i s)"
      by (simp only: drop_drop)
    also have "\<dots> = drop ?n ?b"
      by (rule drop_after_takeWhile)
    also have "\<dots> = dropWhile p ?b"
      by (rule drop_length_takeWhile)
    also have "\<dots> = dropWhile p cs"
      using Cons pc by simp
    finally have de: "drop ?e s = dropWhile p cs" .
    have ta: "take (?j - i) (drop i s) = ?a"
      by (simp only: add_diff_cancel_left' take_length_takeWhile)
    have "collapse p rep (drop i s) = collapse p rep (?a @ c # cs)"
      using ab Cons by simp
    also have "\<dots> = ?a @ collapse p rep (c # cs)"
      using na by (rule collapse_append_not)
    also have "\<dots> = ?a @ rep @ collapse p rep (dropWhile p cs)"
      using pc by simp
    finally have c: "collapse p rep (drop i s) = ?a @ rep @ collapse p rep (dropWhile p cs)" .
    show ?thesis
      unfolding ml splice.simps ta ih de c ..
  qed
qed

lemma string_replace_Plus: "string_replace (Plus p) rep s = collapse p rep s"
  using splice_matchLoop_Plus [of 0 s p rep] by (simp add: string_replace_def)

text \<open>
  A string without surrounding whitespace.
\<close>

definition trimmed :: "jsstring \<Rightarrow> bool" where
  "trimmed s = (s = [] \<or> (\<not> isWhiteSpace (hd s) \<and> \<not> isWhiteSpace (last s)))"

lemma last_dropWhile_rev:
  "dropWhile P (rev xs) \<noteq> [] \<Longrightarrow> last (dropWhile P (rev xs)) = hd xs"
  by (cases xs) (auto simp: dropWhile_append split: if_splits)

lemma trim_trimmed: "trimmed (trim s)"
proof -
  let ?a = "dropWhile isWhiteSpace s"
  let ?b = "dropWhile isWhiteSpace (rev ?a)"
  show ?thesis
  proof (cases "?b = []")
    case True
    then show ?thesis by (simp add: trimmed_def trim_def)
  next
    case False
    then have a: "?a \<noteq> []" by (cases "dropWhile isWhiteSpace s") simp_all
    have "\<not> isWhiteSpace (hd ?b)" using False by (rule hd_dropWhile)
    moreover have "last ?b = hd ?a" using False by (rule last_dropWhile_rev)
    moreover have "\<not> isWhiteSpace (hd ?a)" using a by (rule hd_dropWhile)
    ultimately show ?thesis
      using False by (simp add: trimmed_def trim_def hd_rev last_rev)
  qed
qed

lemma trim_id: "trimmed s \<Longrightarrow> trim s = s"
proof (cases "s = []")
  case True
  then show ?thesis by (simp add: trim_def)
next
  case False
  assume "trimmed s"
  with False have h: "\<not> isWhiteSpace (hd s)" and l: "\<not> isWhiteSpace (last s)"
    by (simp_all add: trimmed_def)
  from False h have 1: "dropWhile isWhiteSpace s = s"
    by (cases s) simp_all
  from False l have 2: "dropWhile isWhiteSpace (rev s) = rev s"
    by (cases "rev s") (simp_all add: hd_rev [symmetric])
  show ?thesis by (simp add: trim_def 1 2)
qed

lemma trimmed_iff: "trimmed s = (trim s = s)"
  using trim_trimmed [of s] trim_id [of s] by auto

lemma trim_idem: "trim (trim s) = trim s"
  by (rule trim_id [OF trim_trimmed])

text \<open>
  Every code unit of the class is the single separator and is not followed by another
  code unit of the class.
\<close>

fun spaced :: "(cu \<Rightarrow> bool) \<Rightarrow> cu \<Rightarrow> jsstring \<Rightarrow> bool" where
  "spaced p sp [] = True"
| "spaced p sp (c # cs) =
     ((p c \<longrightarrow> c = sp \<and> (case cs of [] \<Rightarrow> True | d # ds \<Rightarrow> \<not> p d)) \<and> spaced p sp cs)"

lemma collapse_spaced: "spaced p sp xs \<Longrightarrow> collapse p [sp] xs = xs"
proof (induction xs)
  case Nil
  show ?case by simp
next
  case (Cons c cs)
  then show ?case by (cases cs) auto
qed

lemma hd_collapse:
  "xs \<noteq> [] \<Longrightarrow> \<not> p (hd xs) \<Longrightarrow> collapse p rep xs \<noteq> [] \<and> hd (collapse p rep xs) = hd xs"
  by (cases xs) simp_all

lemma spaced_collapse: "p sp \<Longrightarrow> spaced p sp (collapse p [sp] xs)"
proof (induction p "[sp]" xs rule: collapse.induct)
  case (1 p)
  show ?case by simp
next
  case (2 p c cs)
  show ?case
  proof (cases "p c")
    case True
    with 2 have ih: "spaced p sp (collapse p [sp] (dropWhile p cs))" by simp
    show ?thesis
    proof (cases "dropWhile p cs = []")
      case e: True
      with True show ?thesis by (simp del: dropWhile_eq_Nil_conv)
    next
      case ne: False
      then have np: "\<not> p (hd (dropWhile p cs))" by (rule hd_dropWhile)
      from hd_collapse [where p = p and rep = "[sp]", OF ne np]
      have c1: "collapse p [sp] (dropWhile p cs) \<noteq> []"
        and c2: "hd (collapse p [sp] (dropWhile p cs)) = hd (dropWhile p cs)"
        by simp_all
      from c1 obtain d ds where dd: "collapse p [sp] (dropWhile p cs) = d # ds"
        by (cases "collapse p [sp] (dropWhile p cs)") simp_all
      with c2 np have "\<not> p d" by simp
      with True ih dd show ?thesis by simp
    qed
  next
    case False
    with 2 show ?thesis by simp
  qed
qed

lemma last_dropWhile_keep:
  "dropWhile P xs \<noteq> [] \<Longrightarrow> last (dropWhile P xs) = last xs"
  by (induction xs) (auto split: if_splits)

lemma last_collapse:
  "xs \<noteq> [] \<Longrightarrow> \<not> p (last xs) \<Longrightarrow>
     collapse p rep xs \<noteq> [] \<and> last (collapse p rep xs) = last xs"
proof (induction p rep xs rule: collapse.induct)
  case (1 p rep)
  then show ?case by simp
next
  case (2 p rep c cs)
  show ?case
  proof (cases "p c")
    case True
    with "2.prems" have cs: "cs \<noteq> []" by auto
    with "2.prems" have l: "\<not> p (last cs)" by simp
    have ne: "dropWhile p cs \<noteq> []"
    proof
      assume "dropWhile p cs = []"
      then have "\<forall>x \<in> set cs. p x" by (simp add: dropWhile_eq_Nil_conv)
      with cs l show False by (simp add: last_in_set)
    qed
    then have ld: "last (dropWhile p cs) = last cs" by (rule last_dropWhile_keep)
    from "2.IH"(1) [OF True ne] l ld
    have "collapse p rep (dropWhile p cs) \<noteq> []"
      and "last (collapse p rep (dropWhile p cs)) = last cs"
      by simp_all
    with True cs show ?thesis by simp
  next
    case False
    show ?thesis
    proof (cases "cs = []")
      case True
      with False show ?thesis by simp
    next
      case ne: False
      with "2.prems" have "\<not> p (last cs)" by simp
      from "2.IH"(2) [OF False ne this] False ne show ?thesis by simp
    qed
  qed
qed

lemma str_space: "str '' '' = [0x20]"
  by (simp add: str_def)

lemma sanitize_collapse_eq: "sanitize_collapse v = collapse isWhiteSpace [0x20] (trim v)"
  by (simp add: sanitize_collapse_def string_replace_Plus str_space)

lemma isWhiteSpace_space: "isWhiteSpace 0x20"
  by (simp add: isWhiteSpace_def)

lemma trimmed_collapse: "trimmed s \<Longrightarrow> trimmed (collapse isWhiteSpace rep s)"
proof (cases "s = []")
  case True
  then show ?thesis by (simp add: trimmed_def)
next
  case False
  assume "trimmed s"
  with False have h: "\<not> isWhiteSpace (hd s)" and l: "\<not> isWhiteSpace (last s)"
    by (simp_all add: trimmed_def)
  from hd_collapse [where p = isWhiteSpace and rep = rep, OF False h]
    last_collapse [where p = isWhiteSpace and rep = rep, OF False l] h l
  show ?thesis by (simp add: trimmed_def)
qed

lemma sanitize_collapse_idem: "sanitize_collapse (sanitize_collapse v) = sanitize_collapse v"
proof -
  let ?c = "collapse isWhiteSpace [0x20] (trim v)"
  have "trimmed ?c" by (rule trimmed_collapse [OF trim_trimmed])
  then have "trim ?c = ?c" by (rule trim_id)
  moreover have "collapse isWhiteSpace [0x20] ?c = ?c"
    by (rule collapse_spaced [OF spaced_collapse [where p = isWhiteSpace, OF isWhiteSpace_space]])
  ultimately show ?thesis by (simp add: sanitize_collapse_eq)
qed

lemma upper_plus_32: "isUpper c \<Longrightarrow> 0x61 \<le> c + 0x20 \<and> c + 0x20 \<le> 0x7A"
  unfolding isUpper_def by (auto simp: word_le_nat_alt unat_word_ariths)

lemma lower_not_upper: "isLower d \<Longrightarrow> \<not> isUpper d"
  unfolding isUpper_def isLower_def by (auto simp: word_le_nat_alt)

lemma lower_not_space: "isLower d \<Longrightarrow> \<not> isWhiteSpace d"
  unfolding isWhiteSpace_def isLower_def by (auto simp: word_le_nat_alt)

lemma upper_not_space: "isUpper d \<Longrightarrow> \<not> isWhiteSpace d"
  unfolding isWhiteSpace_def isUpper_def by (auto simp: word_le_nat_alt)

lemma asciiLower_upper: "isUpper c \<Longrightarrow> isLower (asciiLower c)"
  using upper_plus_32 [of c] by (simp add: asciiLower_def isLower_def)

lemma asciiLower_not_upper: "\<not> isUpper (asciiLower c)"
  by (cases "isUpper c") (simp_all add: asciiLower_upper lower_not_upper, simp add: asciiLower_def)

lemma asciiLower_idem: "asciiLower (asciiLower c) = asciiLower c"
  using asciiLower_not_upper [of c] by (simp add: asciiLower_def [of "asciiLower c"])

lemma isWhiteSpace_asciiLower: "isWhiteSpace (asciiLower c) = isWhiteSpace c"
proof (cases "isUpper c")
  case False
  then show ?thesis by (simp add: asciiLower_def)
next
  case True
  from lower_not_space [OF asciiLower_upper [OF True]] upper_not_space [OF True]
  show ?thesis by simp
qed

lemma asciiRuntime_idem: "toLowerCase asciiRuntime (toLowerCase asciiRuntime x) = toLowerCase asciiRuntime x"
  by (simp add: asciiRuntime_def asciiLower_idem)

lemma asciiRuntime_trimmed:
  "trim x = x \<Longrightarrow> trim (toLowerCase asciiRuntime x) = toLowerCase asciiRuntime x"
proof -
  assume "trim x = x"
  then have "trimmed x" by (simp add: trimmed_iff)
  then have "trimmed (map asciiLower x)"
    by (cases "x = []") (simp_all add: trimmed_def hd_map last_map isWhiteSpace_asciiLower)
  then show ?thesis by (simp add: asciiRuntime_def trim_id)
qed

text \<open>
  Claim C5. Every rule of the table has a sanitizer, and applying it twice gives what
  applying it once gives: trim and collapse whitespace for name and message, trim and
  lower-case for email, trim for phone and service. For email this rests on two properties
  of the runtime's \<open>toLowerCase\<close>, which is not part of the repository: it is idempotent,
  and the lower-case form of a string without surrounding whitespace has no surrounding
  whitespace.
\<close>

theorem C5_sanitize_idempotent:
  assumes "\<forall>y. toLowerCase rt (toLowerCase rt y) = toLowerCase rt y"
    and "\<forall>y. trim y = y \<longrightarrow> trim (toLowerCase rt y) = toLowerCase rt y"
  shows "\<forall>(k, r) \<in> set (VALIDATION_RULES rt).
           \<exists>g. sanitize r = Some g \<and> g (g x) = g x"
proof -
  have e: "sanitize_email rt (sanitize_email rt x) = sanitize_email rt x"
  proof -
    have "trim (toLowerCase rt (trim x)) = toLowerCase rt (trim x)"
      using assms(2) trim_idem [of x] by blast
    with assms(1) show ?thesis by (simp add: sanitize_email_def)
  qed
  show ?thesis
    by (simp add: VALIDATION_RULES_def e sanitize_collapse_idem trim_idem)
qed

text \<open>
  A raw value with surrounding and repeated whitespace and with capitals.
\<close>

definition sample :: jsstring where
  "sample = str ''  Jo   ANN ''"

theorem C5_sanitize_idempotent_witness:
  "sanitize_collapse (sanitize_collapse sample) = sanitize_collapse sample
   \<and> sanitize_email asciiRuntime (sanitize_email asciiRuntime sample)
       = sanitize_email asciiRuntime sample
   \<and> trim (trim sample) = trim sample
   \<and> sanitize_collapse sample = str ''Jo ANN''
   \<and> sanitize_email asciiRuntime sample = str ''jo   ann''"
proof -
  have 1: "\<forall>y. toLowerCase asciiRuntime (toLowerCase asciiRuntime y) = toLowerCase asciiRuntime y"
    by (simp add: asciiRuntime_idem)
  have 2: "\<forall>y. trim y = y \<longrightarrow> trim (toLowerCase asciiRuntime y) = toLowerCase asciiRuntime y"
    by (simp add: asciiRuntime_trimmed)
  have 3: "sanitize_collapse sample = str ''Jo ANN''"
    "sanitize_email asciiRuntime sample = str ''jo   ann''"
    by code_simp+
  from C5_sanitize_idempotent [OF 1 2, of sample]
  have "sanitize_collapse (sanitize_collapse sample) = sanitize_collapse sample
   \<and> sanitize_email asciiRuntime (sanitize_email asciiRuntime sample)
       = sanitize_email asciiRuntime sample
   \<and> trim (trim sample) = trim sample"
    by (simp add: VALIDATION_RULES_def)
  with 3 show ?thesis by simp
qed

section \<open>Lengths are counted in code units\<close>

text \<open>
  The rule of the message field and what it declares.
\<close>

lemma message_rule:
  "map_of (VALIDATION_RULES rt) (str ''message'') = Some (snd (VALIDATION_RULES rt ! 4))"
  by (simp add: VALIDATION_RULES_def str_def)

lemma message_rule_props:
  "required (snd (VALIDATION_RULES rt ! 4)) = Some False"
  "minLength (snd (VALIDATION_RULES rt ! 4)) = Some 0"
  "maxLength (snd (VALIDATION_RULES rt ! 4)) = Some 1000"
  "pattern (snd (VALIDATION_RULES rt ! 4)) = None"
  "allowedValues (snd (VALIDATION_RULES rt ! 4)) = None"
  "sanitize (snd (VALIDATION_RULES rt ! 4)) = Some sanitize_collapse"
  "additionalValidation (snd (VALIDATION_RULES rt ! 4)) = Some message_additionalValidation"
  by (simp_all add: VALIDATION_RULES_def)

lemma message_maxError:
  "maxError rt (str ''message'') (snd (VALIDATION_RULES rt ! 4))
     = str ''Message must not exceed 1000 characters''"
  by (simp add: maxError_def message_rule_props formatFieldName_def nameMap_def str_def)

lemma validateField_message:
  "fst (validateField rt (VALIDATION_RULES rt) (str ''message'') v) =
     (let s = sanitize_collapse v
      in if s = [] then \<lparr>valid = True, error = None, sanitizedValue = s\<rparr>
         else if length s > 1000
         then \<lparr>valid = False, error = Some (str ''Message must not exceed 1000 characters''),
               sanitizedValue = s\<rparr>
         else if message_additionalValidation s [] \<noteq> None
         then \<lparr>valid = False, error = message_additionalValidation s [], sanitizedValue = s\<rparr>
         else \<lparr>valid = True, error = None, sanitizedValue = s\<rparr>)"
proof -
  have ne: "message_additionalValidation s a \<noteq> Some []" for s a
    by (simp add: message_additionalValidation_def Let_def str_def)
  show ?thesis
    unfolding validateField_wf [OF wf_VALIDATION_RULES lookupRules_own [OF message_rule]] fst_conv
    by (simp add: outcome_def sanitizedOf_def tooShort_def tooLong_def patternOk_def
        customError_def message_rule_props message_maxError ne Let_def)
qed


text \<open>
  A code point outside the Basic Multilingual Plane (U+1F600): one code point, two code
  units.
\<close>

definition emoji :: jsstring where
  "emoji = [0xD83D, 0xDE00]"

text \<open>
  501 such code points: 1002 code units.
\<close>

definition emoji501 :: jsstring where
  "emoji501 = concat (replicate 501 emoji)"

lemma codePointCount_pairs:
  "isHighSurrogate h \<Longrightarrow> isLowSurrogate l \<Longrightarrow> codePointCount (concat (replicate n [h, l])) = n"
  by (induction n) simp_all

lemma length_concat_replicate: "length (concat (replicate n xs)) = n * length xs"
  by (induction n) simp_all

lemma set_concat_replicate: "set (concat (replicate n xs)) \<subseteq> set xs"
  by (induction n) simp_all

lemma sanitize_collapse_no_space:
  assumes "\<forall>c \<in> set s. \<not> isWhiteSpace c"
  shows "sanitize_collapse s = s"
proof -
  from assms have "trimmed s"
    by (cases "s = []") (simp_all add: trimmed_def)
  then have "trim s = s" by (rule trim_id)
  moreover from collapse_append_not [where a = s and b = "[]" and p = isWhiteSpace] assms
  have "collapse isWhiteSpace [0x20] s = s" by simp
  ultimately show ?thesis by (simp add: sanitize_collapse_eq)
qed

lemma emoji_surrogates: "isHighSurrogate 0xD83D" "isLowSurrogate 0xDE00"
  "\<not> isWhiteSpace 0xD83D" "\<not> isWhiteSpace 0xDE00"
  by (simp_all add: isHighSurrogate_def isLowSurrogate_def isWhiteSpace_def)

lemma sanitize_emoji501: "sanitize_collapse emoji501 = emoji501"
proof (rule sanitize_collapse_no_space)
  from set_concat_replicate [of 501 emoji] emoji_surrogates
  show "\<forall>c \<in> set emoji501. \<not> isWhiteSpace c"
    by (auto simp: emoji501_def emoji_def)
qed

lemma length_emoji501: "length emoji501 = 1002"
  by (simp add: emoji501_def emoji_def length_concat_replicate)

text \<open>
  Claim C4 as stated fails. A name of one code point outside the Basic Multilingual Plane
  has code-point count 1, below the \<open>minLength\<close> of 2, and still passes the length checks
  (it is rejected later, by the pattern); a message of 501 such code points has at most
  1000 code points and is rejected by the \<open>maxLength\<close> check.
\<close>

theorem C4_counterexample:
  "codePointCount (sanitize_collapse emoji) = 1
   \<and> minLength (snd (VALIDATION_RULES asciiRuntime ! 0)) = Some 2
   \<and> fst (validateField asciiRuntime (VALIDATION_RULES asciiRuntime) (str ''name'') emoji)
       = \<lparr>valid = False,
          error = Some (str
            ''Please enter a valid name (letters, spaces, hyphens, and apostrophes only)''),
          sanitizedValue = emoji\<rparr>
   \<and> codePointCount (sanitize_collapse emoji501) = 501
   \<and> fst (validateField asciiRuntime (VALIDATION_RULES asciiRuntime) (str ''message'') emoji501)
       = \<lparr>valid = False, error = Some (str ''Message must not exceed 1000 characters''),
          sanitizedValue = emoji501\<rparr>"
proof -
  have 1: "codePointCount (sanitize_collapse emoji) = 1"
    by code_simp
  have 2: "minLength (snd (VALIDATION_RULES asciiRuntime ! 0)) = Some 2"
    by (simp add: VALIDATION_RULES_def)
  have 3: "fst (validateField asciiRuntime (VALIDATION_RULES asciiRuntime) (str ''name'') emoji)
       = \<lparr>valid = False,
          error = Some (str
            ''Please enter a valid name (letters, spaces, hyphens, and apostrophes only)''),
          sanitizedValue = emoji\<rparr>"
    by code_simp
  have 4: "codePointCount (sanitize_collapse emoji501) = 501"
    unfolding sanitize_emoji501 unfolding emoji501_def emoji_def
    by (rule codePointCount_pairs [OF emoji_surrogates(1) emoji_surrogates(2)])
  have "emoji501 \<noteq> []"
    using length_emoji501 by auto
  then have 5: "fst (validateField asciiRuntime (VALIDATION_RULES asciiRuntime) (str ''message'') emoji501)
       = \<lparr>valid = False, error = Some (str ''Message must not exceed 1000 characters''),
          sanitizedValue = emoji501\<rparr>"
    by (simp add: validateField_message sanitize_emoji501 length_emoji501 Let_def)
  from 1 2 3 4 5 show ?thesis by (intro conjI)
qed

lemma message_additionalValidation_range:
  "message_additionalValidation s a \<noteq> Some (str ''Message must not exceed 1000 characters'')"
  by (simp add: message_additionalValidation_def Let_def str_def)

text \<open>
  The messages of the two length checks are not those of any other check: the required
  message differs from them, the default message of a rule with a pattern differs from
  them, and no callback of the table returns them.
\<close>

lemma formatFieldName_table:
  "formatFieldName rt (str ''name'') = str ''Name''"
  "formatFieldName rt (str ''email'') = str ''Email''"
  "formatFieldName rt (str ''phone'') = str ''Phone''"
  "formatFieldName rt (str ''service'') = str ''Service''"
  "formatFieldName rt (str ''message'') = str ''Message''"
  by (simp_all add: formatFieldName_def nameMap_def str_def)

lemma requiredError_not_length:
  "requiredError rt f \<noteq> minError rt f r" "requiredError rt f \<noteq> maxError rt f r"
  by (simp_all add: requiredError_def minError_def maxError_def str_def)

lemma minError_not_maxError: "minError rt f r \<noteq> maxError rt f r"
  by (simp add: minError_def maxError_def str_def)

lemma table_messages:
  assumes "(f, r) \<in> set (VALIDATION_RULES rt)"
  shows "patternOk r s \<or> message r \<noteq> Some (minError rt f r)"
    and "patternOk r s \<or> message r \<noteq> Some (maxError rt f r)"
    and "customError r s \<noteq> Some (minError rt f r)" and "customError r s \<noteq> Some (maxError rt f r)"
proof -
  from assms consider
      (name) "f = str ''name''" "r = snd (VALIDATION_RULES rt ! 0)"
    | (email) "f = str ''email''" "r = snd (VALIDATION_RULES rt ! 1)"
    | (phone) "f = str ''phone''" "r = snd (VALIDATION_RULES rt ! 2)"
    | (service) "f = str ''service''" "r = snd (VALIDATION_RULES rt ! 3)"
    | (message) "f = str ''message''" "r = snd (VALIDATION_RULES rt ! 4)"
    by (auto simp: VALIDATION_RULES_def)
  then have "(pattern r = None \<or> message r \<noteq> Some (minError rt f r) \<and> message r \<noteq> Some (maxError rt f r))
    \<and> customError r s \<noteq> Some (minError rt f r) \<and> customError r s \<noteq> Some (maxError rt f r)"
  proof cases
    case name
    show ?thesis unfolding name
      by (simp add: VALIDATION_RULES_def minError_def maxError_def customError_def
          formatFieldName_table) (simp add: str_def)
  next
    case email
    show ?thesis unfolding email
      by (simp add: VALIDATION_RULES_def minError_def maxError_def customError_def
          formatFieldName_table email_additionalValidation_def Let_def) (simp add: str_def)
  next
    case phone
    show ?thesis unfolding phone
      by (simp add: VALIDATION_RULES_def minError_def maxError_def customError_def
          formatFieldName_table phone_additionalValidation_def Let_def) (simp add: str_def)
  next
    case service
    show ?thesis unfolding service
      by (simp add: VALIDATION_RULES_def minError_def maxError_def customError_def
          formatFieldName_table service_additionalValidation_def Let_def) (simp add: str_def)
  next
    case message
    show ?thesis unfolding message
      by (simp add: VALIDATION_RULES_def minError_def maxError_def customError_def
          formatFieldName_table message_additionalValidation_def Let_def) (simp add: str_def)
  qed
  then show "patternOk r s \<or> message r \<noteq> Some (minError rt f r)"
    and "patternOk r s \<or> message r \<noteq> Some (maxError rt f r)"
    and "customError r s \<noteq> Some (minError rt f r)" and "customError r s \<noteq> Some (maxError rt f r)"
    by (auto simp: patternOk_def)
qed

lemma outcome_minError:
  assumes "patternOk r s \<or> message r \<noteq> Some (minError rt f r)" and "customError r s \<noteq> Some (minError rt f r)"
  shows "(error (outcome rt f r s) = Some (minError rt f r)) = (s \<noteq> [] \<and> tooShort r s)"
  using assms requiredError_not_length(1) [of rt f r] minError_not_maxError [of rt f r]
  by (auto simp: outcome_def)

lemma outcome_maxError:
  assumes "patternOk r s \<or> message r \<noteq> Some (maxError rt f r)" and "customError r s \<noteq> Some (maxError rt f r)"
  shows "(error (outcome rt f r s) = Some (maxError rt f r))
           = (s \<noteq> [] \<and> \<not> tooShort r s \<and> tooLong r s)"
  using assms requiredError_not_length(2) [of rt f r] minError_not_maxError [of rt f r]
  by (auto simp: outcome_def)

text \<open>
  Claim C4, as amended. The length that \<open>validateField\<close> compares against \<open>minLength\<close> and
  \<open>maxLength\<close> is the number of UTF-16 code units of the sanitized string (\<open>.length\<close>): the
  result carries the at-least message exactly when the sanitized value is not empty and has
  fewer code units than \<open>minLength\<close>, and the must-not-exceed message exactly when the
  sanitized value is not empty, passes the \<open>minLength\<close> check and has more code units than
  \<open>maxLength\<close>; a message whose sanitized form has at most 1000 code units is never rejected
  with the must-not-exceed message.
\<close>

theorem C4_length_in_code_units:
  assumes "map_of (VALIDATION_RULES rt) fieldName = Some r"
  shows "(\<forall>m. minLength r = Some m \<longrightarrow>
            (error (fst (validateField rt (VALIDATION_RULES rt) fieldName v))
               = Some (minError rt fieldName r))
              = (sanitizedOf r v \<noteq> [] \<and> length (sanitizedOf r v) < m))
       \<and> (\<forall>m. maxLength r = Some m \<longrightarrow>
            (error (fst (validateField rt (VALIDATION_RULES rt) fieldName v))
               = Some (maxError rt fieldName r))
              = (sanitizedOf r v \<noteq> [] \<and> m < length (sanitizedOf r v)
                 \<and> \<not> (\<exists>k. minLength r = Some k \<and> length (sanitizedOf r v) < k)))
       \<and> (fieldName = str ''message'' \<and> length (sanitizedOf r v) \<le> 1000 \<longrightarrow>
            error (fst (validateField rt (VALIDATION_RULES rt) fieldName v))
              \<noteq> Some (str ''Message must not exceed 1000 characters''))"
proof (intro conjI allI impI)
  note vf = validateField_wf [OF wf_VALIDATION_RULES lookupRules_own [OF assms]]
  from assms have in_table: "(fieldName, r) \<in> set (VALIDATION_RULES rt)"
    by (rule map_of_SomeD)
  note msgs = table_messages [OF in_table]
  {
    fix m
    assume "minLength r = Some m"
    then have "tooShort r (sanitizedOf r v) = (length (sanitizedOf r v) < m)"
      by (simp add: tooShort_def)
    with outcome_minError [OF msgs(1) msgs(3)]
    show "(error (fst (validateField rt (VALIDATION_RULES rt) fieldName v))
               = Some (minError rt fieldName r))
              = (sanitizedOf r v \<noteq> [] \<and> length (sanitizedOf r v) < m)"
      unfolding vf fst_conv by simp
  next
    fix m
    assume "maxLength r = Some m"
    then have "tooLong r (sanitizedOf r v) = (m < length (sanitizedOf r v))"
      by (simp add: tooLong_def)
    moreover have "tooShort r (sanitizedOf r v)
        = (\<exists>k. minLength r = Some k \<and> length (sanitizedOf r v) < k)"
      by (simp add: tooShort_def split: option.splits)
    ultimately show "(error (fst (validateField rt (VALIDATION_RULES rt) fieldName v))
               = Some (maxError rt fieldName r))
              = (sanitizedOf r v \<noteq> [] \<and> m < length (sanitizedOf r v)
                 \<and> \<not> (\<exists>k. minLength r = Some k \<and> length (sanitizedOf r v) < k))"
      unfolding vf fst_conv using outcome_maxError [OF msgs(2) msgs(4)] by auto
  next
    assume a: "fieldName = str ''message'' \<and> length (sanitizedOf r v) \<le> 1000"
    with assms have r: "r = snd (VALIDATION_RULES rt ! 4)"
      using message_rule [of rt] by simp
    then have s: "sanitizedOf r v = sanitize_collapse v"
      by (simp add: sanitizedOf_def message_rule_props)
    from a s have "length (sanitize_collapse v) \<le> 1000" by simp
    with a show "error (fst (validateField rt (VALIDATION_RULES rt) fieldName v))
        \<noteq> Some (str ''Message must not exceed 1000 characters'')"
      by (simp add: validateField_message Let_def message_additionalValidation_range)
  }
qed

text \<open>
  A name of one letter gets the at-least message; a name of one code point outside the
  Basic Multilingual Plane, which is two code units, does not.
\<close>

theorem C4_length_in_code_units_witness:
  "map_of (VALIDATION_RULES asciiRuntime) (str ''name'') = Some (snd (VALIDATION_RULES asciiRuntime ! 0))
   \<and> minLength (snd (VALIDATION_RULES asciiRuntime ! 0)) = Some 2
   \<and> sanitizedOf (snd (VALIDATION_RULES asciiRuntime ! 0)) (str ''J'') = str ''J''
   \<and> error (fst (validateField asciiRuntime (VALIDATION_RULES asciiRuntime) (str ''name'') (str ''J'')))
       = Some (str ''Name must be at least 2 characters'')
   \<and> sanitizedOf (snd (VALIDATION_RULES asciiRuntime ! 0)) emoji = emoji
   \<and> length emoji = 2 \<and> codePointCount emoji = 1
   \<and> error (fst (validateField asciiRuntime (VALIDATION_RULES asciiRuntime) (str ''name'') emoji))
       \<noteq> Some (str ''Name must be at least 2 characters'')"
proof -
  let ?r = "snd (VALIDATION_RULES asciiRuntime ! 0)"
  have h: "map_of (VALIDATION_RULES asciiRuntime) (str ''name'') = Some ?r"
    by (simp add: VALIDATION_RULES_def)
  have m: "minLength ?r = Some 2"
    by (simp add: VALIDATION_RULES_def)
  have s: "sanitizedOf ?r (str ''J'') = str ''J''" and s': "sanitizedOf ?r emoji = emoji"
    by code_simp+
  have l: "str ''J'' \<noteq> []" "length (str ''J'') < 2" "length emoji = 2" "codePointCount emoji = 1"
    by (simp_all add: str_def emoji_def isHighSurrogate_def isLowSurrogate_def)
  have e: "minError asciiRuntime (str ''name'') ?r = str ''Name must be at least 2 characters''"
    by code_simp
  from C4_length_in_code_units [OF h, of "str ''J''"] m l(1,2)
  have 1: "error (fst (validateField asciiRuntime (VALIDATION_RULES asciiRuntime) (str ''name'') (str ''J'')))
       = Some (str ''Name must be at least 2 characters'')"
    unfolding s e by blast
  from C4_length_in_code_units [OF h, of emoji] m l(3)
  have 2: "error (fst (validateField asciiRuntime (VALIDATION_RULES asciiRuntime) (str ''name'') emoji))
       \<noteq> Some (str ''Name must be at least 2 characters'')"
    unfolding s' e by simp
  from h m s 1 s' l(3,4) 2 show ?thesis by (intro conjI)
qed

section \<open>The content check of the message field\<close>

lemma ends_lit:
  "i \<le> length s \<Longrightarrow>
   ends (lit ps) s i =
     (if i + length ps \<le> length s \<and> (\<forall>k < length ps. (ps ! k) (s ! (i + k)))
      then [i + length ps] else [])"
proof (induction ps arbitrary: i)
  case Nil
  then show ?case by (simp add: lit_def)
next
  case (Cons p ps)
  have l: "lit (p # ps) = Seq (Chr p) (lit ps)" by (simp add: lit_def)
  show ?case
  proof (cases "i < length s \<and> p (s ! i)")
    case True
    then have "Suc i \<le> length s" by simp
    from Cons.IH [OF this] True show ?thesis
      unfolding l by (simp add: All_less_Suc2)
  next
    case False
    then show ?thesis unfolding l by (auto simp: All_less_Suc2)
  qed
qed

lemma ends_chars_ignoreCase:
  assumes "map asciiLower w = map asciiLower (str xs)"
  shows "ends (chars ignoreCase xs) (p @ w @ q) (length p) = [length p + length w]"
proof -
  from assms have len: "length w = length xs"
    using length_map [of asciiLower w] by (simp add: str_def)
  have "asciiLower (w ! k) = asciiLower (of_char (xs ! k))" if "k < length xs" for k
    using that len nth_map [of k w asciiLower] assms by (simp add: str_def)
  then have "\<forall>k < length (map ignoreCase xs).
      (map ignoreCase xs ! k) ((p @ w @ q) ! (length p + k))"
    using len by (simp add: ignoreCase_def nth_append)
  then show ?thesis
    unfolding chars_def using len by (subst ends_lit) simp_all
qed

lemma ends_Seq_nonempty:
  "m \<in> set (ends a s i) \<Longrightarrow> ends b s m \<noteq> [] \<Longrightarrow> ends (Seq a b) s i \<noteq> []"
  by auto

lemma search_found: "j \<le> length s \<Longrightarrow> ends r s j \<noteq> [] \<Longrightarrow> search r s 0 \<noteq> None"
proof -
  assume "j \<le> length s" and "ends r s j \<noteq> []"
  then have "\<exists>x \<in> set [0 ..< Suc (length s)]. ends r s x \<noteq> []"
    by (intro bexI [of _ j]) auto
  then have "find (\<lambda>j. ends r s j \<noteq> []) [0 ..< Suc (length s)] \<noteq> None"
    using find_None_iff [of "\<lambda>j. ends r s j \<noteq> []" "[0 ..< Suc (length s)]"] by blast
  then show ?thesis by (auto simp: search_def simp del: upt_Suc)
qed

lemma test_fresh: "fst (regexp_test (RegExp r g) s) = (search r s 0 \<noteq> None)"
  by (simp add: regexp_test_def regexp_exec_def RegExp_def split: option.splits prod.splits)

lemma wordB_at:
  "ends WordB (p @ q) (length p) =
     (if (p \<noteq> [] \<and> isWordChar (last p)) \<noteq> (q \<noteq> [] \<and> isWordChar (hd q))
      then [length p] else [])"
proof -
  have a: "(0 < length p \<and> length p \<le> length (p @ q) \<and> isWordChar ((p @ q) ! (length p - 1)))
      = (p \<noteq> [] \<and> isWordChar (last p))"
    by (cases "p = []") (simp_all add: nth_append last_conv_nth)
  have b: "(length p < length (p @ q) \<and> isWordChar ((p @ q) ! length p))
      = (q \<noteq> [] \<and> isWordChar (hd q))"
    by (cases "q = []") (simp_all add: nth_append hd_conv_nth)
  show ?thesis
    unfolding ends.simps Let_def a b by simp
qed

lemma asciiLower_wordchar: "isLower (asciiLower c) \<Longrightarrow> isWordChar c"
  by (simp add: asciiLower_def isWordChar_def split: if_splits)


lemma keyword_word:
  assumes "map asciiLower w = kw" and "kw \<noteq> []" and "\<forall>c \<in> set kw. isLower c"
  shows "w \<noteq> [] \<and> isWordChar (hd w) \<and> isWordChar (last w)"
proof -
  from assms(1,2) have ne: "w \<noteq> []" by auto
  from assms(1) ne have "hd kw = asciiLower (hd w)" "last kw = asciiLower (last w)"
    by (auto simp: hd_map last_map)
  moreover from assms(2,3) have "isLower (hd kw)" "isLower (last kw)" by simp_all
  ultimately show ?thesis using ne by (simp add: asciiLower_wordchar)
qed

lemma ends_lit_Cons:
  "ends (lit (p # ps)) s i =
     (if i + length (p # ps) \<le> length s \<and> (\<forall>k < length (p # ps). ((p # ps) ! k) (s ! (i + k)))
      then [i + length (p # ps)] else [])"
proof (cases "i \<le> length s")
  case True
  then show ?thesis by (rule ends_lit)
next
  case False
  then show ?thesis by (simp add: lit_def)
qed

text \<open>
  A string starts with a literal, in any case.
\<close>

definition ciAt :: "string \<Rightarrow> jsstring \<Rightarrow> bool" where
  "ciAt xs t = (map asciiLower (take (length xs) t) = map asciiLower (str xs))"

lemma ends_chars:
  assumes "xs \<noteq> []"
  shows "ends (chars ignoreCase xs) s i =
           (if ciAt xs (drop i s) then [i + length xs] else [])"
proof -
  from assms obtain y ys where xs: "xs = y # ys" by (cases xs) auto
  have "(i + length xs \<le> length s \<and> (\<forall>k < length xs. ignoreCase (xs ! k) (s ! (i + k))))
      = ciAt xs (drop i s)"
  proof (cases "i + length xs \<le> length s")
    case True
    then show ?thesis
      by (auto simp: ciAt_def list_eq_iff_nth_eq ignoreCase_def str_def min_def)
  next
    case False
    from assms have "0 < length xs" by simp
    with False have "min (length s - i) (length xs) \<noteq> length xs" by linarith
    then have "length (map asciiLower (take (length xs) (drop i s))) \<noteq> length (map asciiLower (str xs))"
      by (simp add: str_def)
    then have "\<not> ciAt xs (drop i s)" unfolding ciAt_def by metis
    with False show ?thesis by simp
  qed
  then have eq: "(i + length (map ignoreCase xs) \<le> length s
       \<and> (\<forall>k < length (map ignoreCase xs). (map ignoreCase xs ! k) (s ! (i + k))))
      = ciAt xs (drop i s)"
    by simp
  have "ends (lit (map ignoreCase xs)) s i =
     (if i + length (map ignoreCase xs) \<le> length s
         \<and> (\<forall>k < length (map ignoreCase xs). (map ignoreCase xs ! k) (s ! (i + k)))
      then [i + length (map ignoreCase xs)] else [])"
    unfolding xs list.map by (rule ends_lit_Cons)
  then show ?thesis
    unfolding chars_def eq by simp
qed


text \<open>
  The ends of a greedy \<open>+\<close> that can take \<open>n\<close> code units from index \<open>i\<close>: the longest first.
\<close>

definition downFrom :: "nat \<Rightarrow> nat \<Rightarrow> nat list" where
  "downFrom i n = map (\<lambda>k. i + k) (rev [1 ..< Suc n])"

lemma ends_Plus_downFrom: "ends (Plus p) s i = downFrom i (length (takeWhile p (drop i s)))"
  by (simp only: ends.simps downFrom_def)

lemma downFrom_empty: "(downFrom i n = []) = (n = 0)"
  by (cases n) (simp_all add: downFrom_def)

lemma hd_downFrom: "0 < n \<Longrightarrow> hd (downFrom i n) = i + n"
  by (cases n) (simp_all add: downFrom_def)

lemma map_downFrom: "map (\<lambda>e. j + e) (downFrom i n) = downFrom (j + i) n"
  by (simp add: downFrom_def add.assoc del: upt_Suc)

lemma concat_singletons: "concat (map (\<lambda>e. [e]) xs) = xs"
  by (induction xs) simp_all

lemma ends_Seq_Eps: "ends (Seq a Eps) s i = ends a s i"
proof -
  have "ends Eps s = (\<lambda>e. [e])" by (rule ext) simp
  then show ?thesis by (simp add: concat_singletons del: ends.simps(1-3,5-9))
qed

lemma ends_Seq_chars:
  "xs \<noteq> [] \<Longrightarrow>
   ends (Seq (chars ignoreCase xs) r) s i =
     (if ciAt xs (drop i s) then ends r s (i + length xs) else [])"
  by (simp add: ends_chars del: ends.simps(1-3,5-9))

lemma ends_Seq_Opt:
  "ends (Seq (Opt p) r) s i =
     (if i < length s \<and> p (s ! i) then ends r s (Suc i) @ ends r s i else ends r s i)"
  by simp

text \<open>
  The ends of the URL pattern at the start of a string, written out: the part from
  \<open>://\<close> on at offset \<open>k\<close>, and the whole pattern with its optional \<open>s\<close>.
\<close>

definition urlTail :: "nat \<Rightarrow> jsstring \<Rightarrow> nat list" where
  "urlTail k t =
     (if ciAt ''://'' (drop k t)
      then downFrom (k + 3) (length (takeWhile (\<lambda>c. \<not> isWhiteSpace c) (drop (k + 3) t)))
      else [])"

definition urlEnds :: "jsstring \<Rightarrow> nat list" where
  "urlEnds t =
     (if ciAt ''http'' t
      then if 4 < length t \<and> ignoreCase CHR ''s'' (t ! 4)
           then urlTail 5 t @ urlTail 4 t else urlTail 4 t
      else [])"

lemma ends_Seq_colon:
  "ends (Seq (chars ignoreCase ''://'') r) s i =
     (if ciAt ''://'' (drop i s) then ends r s (i + 3) else [])"
proof -
  have l: "length ''://'' = 3" by simp
  show ?thesis
    using ends_Seq_chars [of "''://''" r s i] unfolding l by (simp del: ends.simps)
qed

lemma ends_Seq_http:
  "ends (Seq (chars ignoreCase ''http'') r) s i =
     (if ciAt ''http'' (drop i s) then ends r s (i + 4) else [])"
proof -
  have l: "length ''http'' = 4" by simp
  show ?thesis
    using ends_Seq_chars [of "''http''" r s i] unfolding l by (simp del: ends.simps)
qed

lemma ends_url_tail:
  "ends (Seq (chars ignoreCase ''://'') (Seq (Plus (\<lambda>c. \<not> isWhiteSpace c)) Eps)) s (j + k)
     = map (\<lambda>e. j + e) (urlTail k (drop j s))"
proof -
  have "j + k + 3 = k + 3 + j" "j + k = k + j" by simp_all
  then have d: "drop (j + k + 3) s = drop (k + 3) (drop j s)" "drop (j + k) s = drop k (drop j s)"
    by (simp_all only: drop_drop)
  have "ends (Seq (chars ignoreCase ''://'') (Seq (Plus (\<lambda>c. \<not> isWhiteSpace c)) Eps)) s (j + k)
      = (if ciAt ''://'' (drop k (drop j s))
         then downFrom (j + k + 3)
                (length (takeWhile (\<lambda>c. \<not> isWhiteSpace c) (drop (k + 3) (drop j s))))
         else [])"
    by (simp only: ends_Seq_colon ends_Seq_Eps ends_Plus_downFrom d)
  also have "\<dots> = map (\<lambda>e. j + e) (urlTail k (drop j s))"
    by (simp add: urlTail_def map_downFrom add.assoc del: drop_drop)
  finally show ?thesis .
qed

lemma ends_url: "ends url_pattern s j = map (\<lambda>e. j + e) (urlEnds (drop j s))"
proof -
  have u: "url_pattern =
      Seq (chars ignoreCase ''http'')
        (Seq (Opt (ignoreCase CHR ''s''))
          (Seq (chars ignoreCase ''://'') (Seq (Plus (\<lambda>c. \<not> isWhiteSpace c)) Eps)))"
    by (simp add: url_pattern_def seq_def)
  have n: "(j + 4 < length s \<and> ignoreCase CHR ''s'' (s ! (j + 4)))
      = (4 < length (drop j s) \<and> ignoreCase CHR ''s'' (drop j s ! 4))"
    by (auto simp: less_diff_conv add.commute)
  have 5: "Suc (j + 4) = j + 5" by simp
  have "ends url_pattern s j =
      (if ciAt ''http'' (drop j s)
       then if 4 < length (drop j s) \<and> ignoreCase CHR ''s'' (drop j s ! 4)
            then map (\<lambda>e. j + e) (urlTail 5 (drop j s)) @ map (\<lambda>e. j + e) (urlTail 4 (drop j s))
            else map (\<lambda>e. j + e) (urlTail 4 (drop j s))
       else [])"
    by (simp only: u ends_Seq_http ends_Seq_Opt 5 n ends_url_tail)
  also have "\<dots> = map (\<lambda>e. j + e) (urlEnds (drop j s))"
    by (simp only: urlEnds_def map_append list.map if_distrib [of "map (\<lambda>e. j + e)"])
  finally show ?thesis .
qed


lemma ciAt_http: "ciAt ''http'' t = (map asciiLower (take 4 t) = str ''http'')"
proof -
  have "length ''http'' = 4" by simp
  moreover have "map asciiLower (str ''http'') = str ''http''"
    by (simp add: str_def asciiLower_def isUpper_def)
  ultimately show ?thesis unfolding ciAt_def by (simp only:)
qed

lemma ciAt_colon: "ciAt ''://'' t = (map asciiLower (take 3 t) = str ''://'')"
proof -
  have "length ''://'' = 3" by simp
  moreover have "map asciiLower (str ''://'') = str ''://''"
    by (simp add: str_def asciiLower_def isUpper_def)
  ultimately show ?thesis unfolding ciAt_def by (simp only:)
qed

lemma ignoreCase_s: "ignoreCase CHR ''s'' c = (asciiLower c = 0x73)"
proof -
  have "asciiLower (of_char CHR ''s'') = 0x73"
    by (simp add: asciiLower_def isUpper_def)
  then show ?thesis by (simp only: ignoreCase_def)
qed

text \<open>
  A URL starts at the head of a string: \<open>http://\<close> or \<open>https://\<close> in any case, followed by
  a code unit that is not whitespace.
\<close>

definition urlAt :: "jsstring \<Rightarrow> bool" where
  "urlAt t =
     (\<exists>h c r. t = h @ c # r
        \<and> (map asciiLower h = str ''http://'' \<or> map asciiLower h = str ''https://'')
        \<and> \<not> isWhiteSpace c)"

lemma urlTail_nonempty:
  assumes "urlTail k t \<noteq> []"
  shows "\<exists>c r. t = take (k + 3) t @ c # r \<and> \<not> isWhiteSpace c
           \<and> map asciiLower (take 3 (drop k t)) = str ''://''"
proof -
  from assms have c: "ciAt ''://'' (drop k t)"
    and n: "takeWhile (\<lambda>c. \<not> isWhiteSpace c) (drop (k + 3) t) \<noteq> []"
    by (auto simp: urlTail_def downFrom_empty split: if_splits)
  from n obtain c r where d: "drop (k + 3) t = c # r" and "\<not> isWhiteSpace c"
    by (cases "drop (k + 3) t") (auto split: if_splits)
  moreover from d have "t = take (k + 3) t @ c # r"
    using append_take_drop_id [of "k + 3" t] by simp
  moreover from c have "map asciiLower (take 3 (drop k t)) = str ''://''"
    by (simp only: ciAt_colon)
  ultimately show ?thesis by blast
qed

lemma urlEnds_cases:
  assumes "urlEnds t \<noteq> []"
  shows "map asciiLower (take 4 t) = str ''http''
     \<and> ((4 < length t \<and> asciiLower (t ! 4) = 0x73 \<and> urlTail 5 t \<noteq> []) \<or> urlTail 4 t \<noteq> [])"
proof (cases "ciAt ''http'' t")
  case False
  with assms show ?thesis by (simp add: urlEnds_def)
next
  case True
  then have h: "map asciiLower (take 4 t) = str ''http''" by (simp only: ciAt_http)
  show ?thesis
  proof (cases "4 < length t \<and> asciiLower (t ! 4) = 0x73")
    case s: True
    with True assms have "urlTail 5 t \<noteq> [] \<or> urlTail 4 t \<noteq> []"
      by (simp add: urlEnds_def ignoreCase_s)
    with h s show ?thesis by blast
  next
    case False
    with True assms have "urlTail 4 t \<noteq> []"
      by (auto simp: urlEnds_def ignoreCase_s)
    with h show ?thesis by blast
  qed
qed

lemma urlEnds_urlAt:
  assumes "urlEnds t \<noteq> []"
  shows "urlAt t"
proof -
  from urlEnds_cases [OF assms] have h: "map asciiLower (take 4 t) = str ''http''"
    by blast
  from urlEnds_cases [OF assms] consider
      (s) "4 < length t" "asciiLower (t ! 4) = 0x73" "urlTail 5 t \<noteq> []"
    | (p) "urlTail 4 t \<noteq> []"
    by blast
  then show ?thesis
  proof cases
    case s
    from urlTail_nonempty [OF s(3)] obtain c r where
      t: "t = take 8 t @ c # r" and c: "\<not> isWhiteSpace c"
      and m: "map asciiLower (take 3 (drop 5 t)) = str ''://''"
      by auto
    from s(1) have "take 1 (drop 4 t) = [t ! 4]"
      by (simp add: take_Suc_conv_app_nth)
    moreover have "take 8 t = take 4 t @ take 1 (drop 4 t) @ take 3 (drop 5 t)"
      using take_add [of 4 4 t] take_add [of 1 3 "drop 4 t"] by simp
    ultimately have "map asciiLower (take 8 t) = str ''http'' @ [0x73] @ str ''://''"
      using h m s(2) by simp
    then have "map asciiLower (take 8 t) = str ''https://''"
      by (simp add: str_def)
    with t c show ?thesis unfolding urlAt_def by blast
  next
    case p
    from urlTail_nonempty [OF p] obtain c r where
      t: "t = take 7 t @ c # r" and c: "\<not> isWhiteSpace c"
      and m: "map asciiLower (take 3 (drop 4 t)) = str ''://''"
      by auto
    have "take 7 t = take 4 t @ take 3 (drop 4 t)"
      using take_add [of 4 3 t] by simp
    then have "map asciiLower (take 7 t) = str ''http'' @ str ''://''"
      using h m by simp
    then have "map asciiLower (take 7 t) = str ''http://''"
      by (simp add: str_def)
    with t c show ?thesis unfolding urlAt_def by blast
  qed
qed


lemma lower_not_space_char:
  "asciiLower a = l \<Longrightarrow> \<not> isWhiteSpace l \<Longrightarrow> \<not> isWhiteSpace a"
  using isWhiteSpace_asciiLower [of a] by simp

lemma literal_not_space:
  "\<not> isWhiteSpace 0x68" "\<not> isWhiteSpace 0x74" "\<not> isWhiteSpace 0x70" "\<not> isWhiteSpace 0x73"
  "\<not> isWhiteSpace 0x3A" "\<not> isWhiteSpace 0x2F"
  by (simp_all add: isWhiteSpace_def)

lemma hd_downFrom_length:
  "\<not> isWhiteSpace c \<Longrightarrow>
   downFrom k (length (takeWhile (\<lambda>c. \<not> isWhiteSpace c) (c # r))) \<noteq> []
   \<and> hd (downFrom k (length (takeWhile (\<lambda>c. \<not> isWhiteSpace c) (c # r))))
       = k + Suc (length (takeWhile (\<lambda>c. \<not> isWhiteSpace c) r))"
  by (simp add: downFrom_empty hd_downFrom)

lemma urlAt_urlEnds:
  assumes "urlAt t"
  shows "urlEnds t \<noteq> [] \<and> hd (urlEnds t) = length (takeWhile (\<lambda>c. \<not> isWhiteSpace c) t)"
proof -
  from assms obtain h c r where t: "t = h @ c # r" and c: "\<not> isWhiteSpace c"
    and h: "map asciiLower h = str ''http://'' \<or> map asciiLower h = str ''https://''"
    unfolding urlAt_def by blast
  note d = hd_downFrom_length [OF c]
  from h show ?thesis
  proof
    assume "map asciiLower h = str ''http://''"
    then obtain a1 a2 a3 a4 a5 a6 a7 where hh: "h = [a1, a2, a3, a4, a5, a6, a7]"
      and l: "asciiLower a1 = 0x68" "asciiLower a2 = 0x74" "asciiLower a3 = 0x74"
        "asciiLower a4 = 0x70" "asciiLower a5 = 0x3A" "asciiLower a6 = 0x2F"
        "asciiLower a7 = 0x2F"
      by (auto simp: str_def map_eq_Cons_conv)
    have n: "\<not> isWhiteSpace a1" "\<not> isWhiteSpace a2" "\<not> isWhiteSpace a3" "\<not> isWhiteSpace a4"
      "\<not> isWhiteSpace a5" "\<not> isWhiteSpace a6" "\<not> isWhiteSpace a7"
      using l literal_not_space by (metis isWhiteSpace_asciiLower)+
    have e: "urlEnds t = downFrom 7 (length (takeWhile (\<lambda>c. \<not> isWhiteSpace c) (c # r)))"
      unfolding t hh
      by (simp add: urlEnds_def urlTail_def ciAt_http ciAt_colon ignoreCase_s l str_def)
    show ?thesis
      unfolding e using d [of 7 r] n c by (simp add: t hh)
  next
    assume "map asciiLower h = str ''https://''"
    then obtain a1 a2 a3 a4 a5 a6 a7 a8 where hh: "h = [a1, a2, a3, a4, a5, a6, a7, a8]"
      and l: "asciiLower a1 = 0x68" "asciiLower a2 = 0x74" "asciiLower a3 = 0x74"
        "asciiLower a4 = 0x70" "asciiLower a5 = 0x73" "asciiLower a6 = 0x3A"
        "asciiLower a7 = 0x2F" "asciiLower a8 = 0x2F"
      by (auto simp: str_def map_eq_Cons_conv)
    have n: "\<not> isWhiteSpace a1" "\<not> isWhiteSpace a2" "\<not> isWhiteSpace a3" "\<not> isWhiteSpace a4"
      "\<not> isWhiteSpace a5" "\<not> isWhiteSpace a6" "\<not> isWhiteSpace a7" "\<not> isWhiteSpace a8"
      using l literal_not_space by (metis isWhiteSpace_asciiLower)+
    have e: "urlEnds t = downFrom 8 (length (takeWhile (\<lambda>c. \<not> isWhiteSpace c) (c # r)))
        @ urlTail 4 t"
      unfolding t hh
      by (simp add: urlEnds_def urlTail_def [of 5] ciAt_http ciAt_colon ignoreCase_s l str_def)
    show ?thesis
      unfolding e using d [of 8 r] n c by (simp add: t hh)
  qed
qed

lemma urlEnds_iff: "(urlEnds t \<noteq> []) = urlAt t"
  using urlEnds_urlAt urlAt_urlEnds by blast


lemma urlAt_not_space: "urlAt (c # cs) \<Longrightarrow> \<not> isWhiteSpace c"
proof -
  assume "urlAt (c # cs)"
  from urlAt_urlEnds [OF this] have "urlEnds (c # cs) \<noteq> []" by simp
  from urlEnds_cases [OF this] have "map asciiLower (take 4 (c # cs)) = str ''http''"
    by blast
  then have "asciiLower c = 0x68" by (simp add: str_def)
  with literal_not_space show ?thesis by (metis isWhiteSpace_asciiLower)
qed

lemma urlAt_Nil: "\<not> urlAt []"
  by (simp add: urlAt_def)

text \<open>
  The matches that \<open>match\<close> finds for the URL pattern, as a scan of the string: where a
  URL starts, it runs on to the next whitespace and the scan goes on behind it.
\<close>

function countUrls :: "jsstring \<Rightarrow> nat" where
  "countUrls [] = 0"
| "countUrls (c # cs) =
     (if urlAt (c # cs) then Suc (countUrls (dropWhile (\<lambda>c. \<not> isWhiteSpace c) cs))
      else countUrls cs)"
  by pat_completeness auto
termination
  by (relation "measure length") (auto simp: le_imp_less_Suc length_dropWhile_le)

lemma matchLoop_url:
  "i \<le> length s \<Longrightarrow> length (matchLoop url_pattern s i) = countUrls (drop i s)"
proof (induction "length s - i" arbitrary: i rule: less_induct)
  case less
  show ?case
  proof (cases "drop i s")
    case Nil
    with less.prems have "i = length s" by simp
    moreover have "urlEnds [] = []" using urlEnds_iff [of "[]"] urlAt_Nil by blast
    ultimately have "search url_pattern s i = None"
      using Nil
      by (subst search_unfold) (simp add: ends_url search_unfold [of _ _ "Suc (length s)"]
          del: ends.simps)
    then have "matchLoop url_pattern s i = []"
      by (subst matchLoop.simps) simp
    with Nil show ?thesis by simp
  next
    case (Cons c cs)
    with less.prems have lt: "i < length s"
      by (cases "i = length s") simp_all
    show ?thesis
    proof (cases "urlAt (c # cs)")
      case True
      let ?n = "length (takeWhile (\<lambda>c. \<not> isWhiteSpace c) (c # cs))"
      from urlAt_urlEnds [OF True] have ne: "urlEnds (c # cs) \<noteq> []"
        and hd: "hd (urlEnds (c # cs)) = ?n" by simp_all
      from urlAt_not_space [OF True] have c: "\<not> isWhiteSpace c" .
      then have n0: "0 < ?n" by simp
      have e: "ends url_pattern s i \<noteq> []" "hd (ends url_pattern s i) = i + ?n"
        using ne hd by (simp_all add: ends_url Cons hd_map del: ends.simps)
      from lt e have se: "search url_pattern s i = Some (i, i + ?n)"
        by (subst search_unfold) simp
      have ml: "matchLoop url_pattern s i = (i, i + ?n) # matchLoop url_pattern s (i + ?n)"
        using n0 by (subst matchLoop.simps) (simp add: se del: ends.simps)
      have "?n \<le> length (c # cs)" by (rule length_takeWhile_le)
      also have "length (c # cs) = length s - i" using Cons [symmetric] by simp
      finally have le: "i + ?n \<le> length s" using lt by simp
      from n0 lt le have "length s - (i + ?n) < length s - i" by linarith
      from less.hyps [OF this le]
      have ih: "length (matchLoop url_pattern s (i + ?n)) = countUrls (drop (i + ?n) s)" .
      have "i + ?n = ?n + i" by simp
      then have "drop (i + ?n) s = drop ?n (drop i s)" by (simp only: drop_drop)
      also have "\<dots> = dropWhile (\<lambda>c. \<not> isWhiteSpace c) (c # cs)"
        unfolding Cons by (rule drop_length_takeWhile)
      also have "\<dots> = dropWhile (\<lambda>c. \<not> isWhiteSpace c) cs" using c by simp
      finally have d: "drop (i + ?n) s = dropWhile (\<lambda>c. \<not> isWhiteSpace c) cs" .
      show ?thesis
        unfolding ml Cons using True ih d by simp
    next
      case False
      then have "ends url_pattern s i = []"
        using urlEnds_iff [of "c # cs"] by (simp add: ends_url Cons del: ends.simps)
      with lt have "search url_pattern s i = search url_pattern s (Suc i)"
        by (subst search_unfold) simp
      then have ml: "matchLoop url_pattern s i = matchLoop url_pattern s (Suc i)"
        by (subst matchLoop.simps, subst (2) matchLoop.simps) (simp only:)
      from lt have "length s - Suc i < length s - i" "Suc i \<le> length s" by simp_all
      from less.hyps [OF this]
      have "length (matchLoop url_pattern s (Suc i)) = countUrls (drop (Suc i) s)" .
      moreover from Cons have "drop (Suc i) s = cs"
        using drop_Suc [of i s] by (metis drop_Suc list.sel(3) tl_drop)
      ultimately show ?thesis
        unfolding ml Cons using False by simp
    qed
  qed
qed

lemma match_count:
  "(case string_match url_pattern s of None \<Rightarrow> 0 | Some urls \<Rightarrow> length urls) = countUrls s"
  using matchLoop_url [of 0 s]
  by (cases "matchLoop url_pattern s 0") (simp_all add: string_match_def)


text \<open>
  The words of a string: its maximal runs of code units that are not whitespace. A word
  has a URL when a URL starts somewhere in it.
\<close>

function tokens :: "jsstring \<Rightarrow> jsstring list" where
  "tokens [] = []"
| "tokens (c # cs) =
     (if isWhiteSpace c then tokens cs
      else takeWhile (\<lambda>c. \<not> isWhiteSpace c) (c # cs)
             # tokens (dropWhile (\<lambda>c. \<not> isWhiteSpace c) cs))"
  by pat_completeness auto
termination
  by (relation "measure length") (auto simp: le_imp_less_Suc length_dropWhile_le)

definition hasUrl :: "jsstring \<Rightarrow> bool" where
  "hasUrl t = (\<exists>a b. t = a @ b \<and> urlAt b)"

lemma urlAt_append: "urlAt t \<Longrightarrow> urlAt (t @ r)"
  unfolding urlAt_def by (metis append.assoc append_Cons)

lemma url_head_not_space:
  assumes "map asciiLower h = str ''http://'' \<or> map asciiLower h = str ''https://''"
  shows "\<forall>x \<in> set h. \<not> isWhiteSpace x"
proof
  fix x assume "x \<in> set h"
  then have "asciiLower x \<in> set (map asciiLower h)" by simp
  with assms have "asciiLower x \<in> {0x68, 0x74, 0x70, 0x73, 0x3A, 0x2F}"
    by (auto simp: str_def)
  with literal_not_space have "\<not> isWhiteSpace (asciiLower x)" by auto
  then show "\<not> isWhiteSpace x" by (simp add: isWhiteSpace_asciiLower)
qed

lemma urlAt_token:
  assumes "\<forall>x \<in> set t. \<not> isWhiteSpace x" and "r = [] \<or> isWhiteSpace (hd r)"
  shows "urlAt (t @ r) = urlAt t"
proof
  assume "urlAt t"
  then show "urlAt (t @ r)" by (rule urlAt_append)
next
  assume "urlAt (t @ r)"
  then obtain h c r' where e: "t @ r = h @ c # r'" and c: "\<not> isWhiteSpace c"
    and h: "map asciiLower h = str ''http://'' \<or> map asciiLower h = str ''https://''"
    unfolding urlAt_def by blast
  from assms have "takeWhile (\<lambda>c. \<not> isWhiteSpace c) (t @ r) = t"
    by (cases r) (simp_all add: takeWhile_append2)
  moreover from url_head_not_space [OF h] c
  have "takeWhile (\<lambda>c. \<not> isWhiteSpace c) (h @ c # r')
      = h @ c # takeWhile (\<lambda>c. \<not> isWhiteSpace c) r'"
    by (simp add: takeWhile_append2)
  ultimately have "t = h @ c # takeWhile (\<lambda>c. \<not> isWhiteSpace c) r'"
    using e by simp
  with h c show "urlAt t" unfolding urlAt_def by blast
qed

lemma hasUrl_Nil: "\<not> hasUrl []"
  by (simp add: hasUrl_def urlAt_Nil)

lemma hasUrl_Cons: "hasUrl (c # t) = (urlAt (c # t) \<or> hasUrl t)"
proof
  assume "hasUrl (c # t)"
  then obtain a b where e: "c # t = a @ b" and u: "urlAt b" unfolding hasUrl_def by blast
  show "urlAt (c # t) \<or> hasUrl t"
  proof (cases a)
    case Nil
    with e u show ?thesis by simp
  next
    case (Cons x a')
    with e have "t = a' @ b" by simp
    with u show ?thesis unfolding hasUrl_def by blast
  qed
next
  assume "urlAt (c # t) \<or> hasUrl t"
  then show "hasUrl (c # t)"
  proof
    assume "urlAt (c # t)"
    then show ?thesis unfolding hasUrl_def by (metis append_Nil)
  next
    assume "hasUrl t"
    then obtain a b where "t = a @ b" and "urlAt b" unfolding hasUrl_def by blast
    then have "c # t = (c # a) @ b" by simp
    with \<open>urlAt b\<close> show ?thesis unfolding hasUrl_def by blast
  qed
qed

lemma countUrls_token:
  assumes "\<forall>x \<in> set t. \<not> isWhiteSpace x" and "r = [] \<or> isWhiteSpace (hd r)"
  shows "countUrls (t @ r) = (if hasUrl t then 1 else 0) + countUrls r"
  using assms(1)
proof (induction t)
  case Nil
  show ?case by (simp add: hasUrl_Nil)
next
  case (Cons c t)
  then have t: "\<forall>x \<in> set t. \<not> isWhiteSpace x" and c: "\<not> isWhiteSpace c" by simp_all
  from Cons.prems assms(2) have tl: "urlAt ((c # t) @ r) = urlAt (c # t)"
    by (rule urlAt_token)
  show ?case
  proof (cases "urlAt (c # t)")
    case True
    from t assms(2) have "dropWhile (\<lambda>c. \<not> isWhiteSpace c) (t @ r) = r"
      by (cases r) (simp_all add: dropWhile_append2)
    with True tl show ?thesis by (simp add: hasUrl_Cons)
  next
    case False
    with tl Cons.IH [OF t] show ?thesis by (simp add: hasUrl_Cons)
  qed
qed

lemma countUrls_tokens: "countUrls s = length (filter hasUrl (tokens s))"
proof (induction s rule: tokens.induct)
  case 1
  show ?case by simp
next
  case (2 c cs)
  show ?case
  proof (cases "isWhiteSpace c")
    case True
    then have "\<not> urlAt (c # cs)" using urlAt_not_space by blast
    with True 2 show ?thesis by simp
  next
    case False
    let ?t = "takeWhile (\<lambda>c. \<not> isWhiteSpace c) (c # cs)"
    let ?r = "dropWhile (\<lambda>c. \<not> isWhiteSpace c) cs"
    have e: "c # cs = ?t @ ?r" using False by simp
    have t: "\<forall>x \<in> set ?t. \<not> isWhiteSpace x" by (auto dest: set_takeWhileD)
    have r: "?r = [] \<or> isWhiteSpace (hd ?r)"
      using hd_dropWhile [of "\<lambda>c. \<not> isWhiteSpace c" cs] by blast
    have "countUrls (c # cs) = countUrls (?t @ ?r)" using e by (rule arg_cong)
    also have "\<dots> = (if hasUrl ?t then 1 else 0) + countUrls ?r"
      using t r by (rule countUrls_token)
    also have "\<dots> = (if hasUrl ?t then 1 else 0) + length (filter hasUrl (tokens ?r))"
      using "2.IH"(2) [OF False] by simp
    also have "\<dots> = length (filter hasUrl (tokens (c # cs)))"
      using False by simp
    finally show ?thesis .
  qed
qed

text \<open>
  The notions of claim C7 as amended. The number of URLs that the callback counts is the
  number of words of the message that have a URL: this is the number of matches that
  \<open>match\<close> finds for \<open>/https?:\/\/[^\s]+/gi\<close>. A script tag is an occurrence of \<open><script\<close> in any case. A spam
  keyword occurs as a whole word when it occurs, in any case, with no word character
  (\<open>[A-Za-z0-9_]\<close>) next to it.
\<close>

definition urlCount :: "jsstring \<Rightarrow> nat" where
  "urlCount s = length (filter hasUrl (tokens s))"

lemma url_count:
  "(case string_match url_pattern s of None \<Rightarrow> 0 | Some urls \<Rightarrow> length urls) = urlCount s"
  by (simp only: match_count countUrls_tokens urlCount_def)

definition containsScriptTag :: "jsstring \<Rightarrow> bool" where
  "containsScriptTag s = (\<exists>p w q. s = p @ w @ q \<and> map asciiLower w = str ''<script'')"

definition spamKeywords :: "jsstring list" where
  "spamKeywords = [str ''viagra'', str ''cialis'', str ''casino'', str ''lottery'']"

definition containsSpamWord :: "jsstring \<Rightarrow> bool" where
  "containsSpamWord s =
     (\<exists>p w q. s = p @ w @ q \<and> map asciiLower w \<in> set spamKeywords
        \<and> (p = [] \<or> \<not> isWordChar (last p)) \<and> (q = [] \<or> \<not> isWordChar (hd q)))"

lemma lower_literals:
  "map asciiLower (str ''<script'') = str ''<script''"
  "map asciiLower (str ''viagra'') = str ''viagra''"
  "map asciiLower (str ''cialis'') = str ''cialis''"
  "map asciiLower (str ''casino'') = str ''casino''"
  "map asciiLower (str ''lottery'') = str ''lottery''"
  by (simp_all add: str_def asciiLower_def isUpper_def)

lemma spamKeywords_lower: "kw \<in> set spamKeywords \<Longrightarrow> kw \<noteq> [] \<and> (\<forall>c \<in> set kw. isLower c)"
  by (auto simp: spamKeywords_def str_def isLower_def)

lemma script_found:
  assumes "containsScriptTag s"
  shows "fst (regexp_test (RegExp script_pattern True) s)"
proof -
  from assms obtain p w q where s: "s = p @ w @ q" and w: "map asciiLower w = str ''<script''"
    by (auto simp: containsScriptTag_def)
  from w have "map asciiLower w = map asciiLower (str ''<script'')"
    by (simp only: lower_literals)
  then have "ends script_pattern s (length p) = [length p + length w]"
    unfolding script_pattern_def s by (rule ends_chars_ignoreCase)
  then have "search script_pattern s 0 \<noteq> None"
    using search_found [of "length p" s script_pattern] s by simp
  then show ?thesis by (simp add: test_fresh)
qed

lemma spam_found:
  assumes "containsSpamWord s"
  shows "fst (regexp_test (RegExp spam_pattern True) s)"
proof -
  from assms obtain p w q where s: "s = p @ w @ q"
    and kw: "map asciiLower w \<in> set spamKeywords"
    and b: "p = [] \<or> \<not> isWordChar (last p)"
    and e: "q = [] \<or> \<not> isWordChar (hd q)"
    by (auto simp: containsSpamWord_def)
  from spamKeywords_lower [OF kw] have "map asciiLower w \<noteq> []"
    and "\<forall>c \<in> set (map asciiLower w). isLower c" by simp_all
  from keyword_word [OF refl this]
  have w: "w \<noteq> []" "isWordChar (hd w)" "isWordChar (last w)" by simp_all
  let ?alt = "Alt (chars ignoreCase ''viagra'')
            (Alt (chars ignoreCase ''cialis'')
              (Alt (chars ignoreCase ''casino'') (chars ignoreCase ''lottery'')))"
  have 1: "length p \<in> set (ends WordB s (length p))"
    using wordB_at [of p "w @ q"] b w by (simp add: s)
  have 2: "length p + length w \<in> set (ends ?alt s (length p))"
  proof -
    from kw consider "map asciiLower w = map asciiLower (str ''viagra'')"
      | "map asciiLower w = map asciiLower (str ''cialis'')"
      | "map asciiLower w = map asciiLower (str ''casino'')"
      | "map asciiLower w = map asciiLower (str ''lottery'')"
      by (auto simp: spamKeywords_def lower_literals)
    then show ?thesis
    proof cases
      case 1
      from ends_chars_ignoreCase [OF this, of p q] show ?thesis by (simp add: s)
    next
      case 2
      from ends_chars_ignoreCase [OF this, of p q] show ?thesis by (simp add: s)
    next
      case 3
      from ends_chars_ignoreCase [OF this, of p q] show ?thesis by (simp add: s)
    next
      case 4
      from ends_chars_ignoreCase [OF this, of p q] show ?thesis by (simp add: s)
    qed
  qed
  have 3: "ends (Seq WordB Eps) s (length p + length w) \<noteq> []"
    using wordB_at [of "p @ w" q] e w by (simp add: s)
  have "ends (Seq ?alt (Seq WordB Eps)) s (length p) \<noteq> []"
    using 2 3 by (rule ends_Seq_nonempty)
  with 1 have "ends (Seq WordB (Seq ?alt (Seq WordB Eps))) s (length p) \<noteq> []"
    by (rule ends_Seq_nonempty)
  moreover have "spam_pattern = Seq WordB (Seq ?alt (Seq WordB Eps))"
    by (simp add: spam_pattern_def seq_def)
  ultimately have "ends spam_pattern s (length p) \<noteq> []"
    by simp
  then have "search spam_pattern s 0 \<noteq> None"
    using search_found [of "length p" s spam_pattern] s by simp
  then show ?thesis by (simp add: test_fresh)
qed

text \<open>
  The URL substrings of claim C7 in the words of the claim: one for every index of the
  string at which \<open>http://\<close> or \<open>https://\<close> followed by a code unit that is not whitespace
  starts.
\<close>

fun urlSubstrings :: "jsstring \<Rightarrow> nat" where
  "urlSubstrings [] = 0"
| "urlSubstrings (c # cs) = (if urlAt (c # cs) then 1 else 0) + urlSubstrings cs"

lemma urlSubstrings_Cons:
  "urlSubstrings (c # cs) = (if urlEnds (c # cs) \<noteq> [] then 1 else 0) + urlSubstrings cs"
  by (simp add: urlEnds_iff)

lemma urlSubstrings_positions:
  "urlSubstrings s = length (filter (\<lambda>i. urlAt (drop i s)) [0 ..< length s])"
proof (induction s)
  case Nil
  show ?case by simp
next
  case (Cons c cs)
  have "[0 ..< length (c # cs)] = 0 # map Suc [0 ..< length cs]"
    by (simp add: upt_conv_Cons map_Suc_upt del: upt_Suc)
  then have "length (filter (\<lambda>i. urlAt (drop i (c # cs))) [0 ..< length (c # cs)])
      = (if urlAt (c # cs) then 1 else 0)
        + length (filter (\<lambda>i. urlAt (drop i cs)) [0 ..< length cs])"
    by (simp add: filter_map comp_def del: upt_Suc)
  with Cons show ?case by simp
qed

text \<open>
  The URL regexp never finds more matches than the string has URL substrings.
\<close>

lemma urlSubstrings_dropWhile: "urlSubstrings (dropWhile P cs) \<le> urlSubstrings cs"
  by (induction cs) simp_all

lemma countUrls_le_urlSubstrings: "countUrls s \<le> urlSubstrings s"
proof (induction s rule: countUrls.induct)
  case 1
  show ?case by simp
next
  case (2 c cs)
  show ?case
  proof (cases "urlAt (c # cs)")
    case True
    with 2(1) have "countUrls (dropWhile (\<lambda>c. \<not> isWhiteSpace c) cs)
        \<le> urlSubstrings (dropWhile (\<lambda>c. \<not> isWhiteSpace c) cs)" by simp
    also have "\<dots> \<le> urlSubstrings cs" by (rule urlSubstrings_dropWhile)
    finally show ?thesis using True by simp
  next
    case False
    with 2(2) show ?thesis by simp
  qed
qed

lemma urlCount_le_urlSubstrings: "urlCount s \<le> urlSubstrings s"
  using countUrls_le_urlSubstrings [of s] by (simp only: urlCount_def countUrls_tokens)

text \<open>
  Three links separated by commas.
\<close>

definition commaLinks :: jsstring where
  "commaLinks = str ''http://a.b,http://c.d,http://e.f''"

lemma urlSubstrings_commaLinks: "urlSubstrings commaLinks = 3"
  unfolding commaLinks_def str_def list.map
  by (simp only: urlSubstrings_Cons urlSubstrings.simps(1)) code_simp

text \<open>
  Claim C7 as stated fails. The message \<open>http://a.b,http://c.d,http://e.f\<close> is its own
  sanitized form and contains three URL substrings, and \<open>validateField\<close> returns valid:
  the greedy \<open>[^\s]+\<close> of the URL regexp runs over the commas to the end of the word, so
  \<open>match\<close> finds one match.
\<close>

theorem C7_counterexample:
  "sanitize_collapse commaLinks = commaLinks
   \<and> commaLinks \<noteq> [] \<and> length commaLinks \<le> 1000
   \<and> urlSubstrings commaLinks = 3
   \<and> fst (validateField asciiRuntime (VALIDATION_RULES asciiRuntime) (str ''message'') commaLinks)
       = \<lparr>valid = True, error = None, sanitizedValue = commaLinks\<rparr>"
proof -
  have 1: "sanitize_collapse commaLinks = commaLinks"
    by code_simp
  have 2: "commaLinks \<noteq> []" "length commaLinks \<le> 1000"
    by (simp_all add: commaLinks_def str_def)
  have 3: "fst (validateField asciiRuntime (VALIDATION_RULES asciiRuntime) (str ''message'') commaLinks)
       = \<lparr>valid = True, error = None, sanitizedValue = commaLinks\<rparr>"
    by code_simp
  from 1 2 urlSubstrings_commaLinks 3 show ?thesis by (intro conjI)
qed

text \<open>
  Claim C7, as amended. When the sanitized message is not empty and has at most 1000 code
  units, \<open>validateField\<close> on the message field returns invalid with the too-many-links
  message if more than 2 words of the message have a URL, and otherwise returns invalid
  with the prohibited-content message if the message contains a script tag or one of the
  spam keywords as a whole word.
\<close>

theorem C7_message_spam_check:
  assumes "sanitize_collapse v \<noteq> []" and "length (sanitize_collapse v) \<le> 1000"
  shows "(2 < urlCount (sanitize_collapse v) \<longrightarrow>
            fst (validateField rt (VALIDATION_RULES rt) (str ''message'') v)
              = \<lparr>valid = False, error = Some (str ''Message contains too many links''),
                 sanitizedValue = sanitize_collapse v\<rparr>)
       \<and> (urlCount (sanitize_collapse v) \<le> 2
            \<and> (containsScriptTag (sanitize_collapse v) \<or> containsSpamWord (sanitize_collapse v)) \<longrightarrow>
            fst (validateField rt (VALIDATION_RULES rt) (str ''message'') v)
              = \<lparr>valid = False, error = Some (str ''Message contains prohibited content''),
                 sanitizedValue = sanitize_collapse v\<rparr>)"
proof (intro conjI impI)
  assume "2 < urlCount (sanitize_collapse v)"
  then have "message_additionalValidation (sanitize_collapse v) []
      = Some (str ''Message contains too many links'')"
    by (simp add: message_additionalValidation_def url_count Let_def)
  with assms show "fst (validateField rt (VALIDATION_RULES rt) (str ''message'') v)
      = \<lparr>valid = False, error = Some (str ''Message contains too many links''),
         sanitizedValue = sanitize_collapse v\<rparr>"
    by (simp add: validateField_message Let_def)
next
  assume a: "urlCount (sanitize_collapse v) \<le> 2
     \<and> (containsScriptTag (sanitize_collapse v) \<or> containsSpamWord (sanitize_collapse v))"
  then have "fst (regexp_test (RegExp script_pattern True) (sanitize_collapse v))
      \<or> fst (regexp_test (RegExp spam_pattern True) (sanitize_collapse v))"
    using script_found spam_found by blast
  then have "anyTest [RegExp script_pattern True, RegExp spam_pattern True] (sanitize_collapse v)"
    by auto
  with a have "message_additionalValidation (sanitize_collapse v) []
      = Some (str ''Message contains prohibited content'')"
    by (simp add: message_additionalValidation_def url_count Let_def)
  with assms show "fst (validateField rt (VALIDATION_RULES rt) (str ''message'') v)
      = \<lparr>valid = False, error = Some (str ''Message contains prohibited content''),
         sanitizedValue = sanitize_collapse v\<rparr>"
    by (simp add: validateField_message Let_def)
qed


text \<open>
  A message with a spam keyword in capitals, and a message with three links.
\<close>

definition spamMessage :: jsstring where
  "spamMessage = str ''win the LOTTERY now''"

definition linkMessage :: jsstring where
  "linkMessage = str ''see http://a.b https://c.d HTTP://e.f''"

theorem C7_message_spam_check_witness:
  "sanitize_collapse spamMessage \<noteq> [] \<and> length (sanitize_collapse spamMessage) \<le> 1000
   \<and> urlCount (sanitize_collapse spamMessage) \<le> 2
   \<and> sanitize_collapse spamMessage = str ''win the '' @ str ''LOTTERY'' @ str '' now''
   \<and> map asciiLower (str ''LOTTERY'') = str ''lottery''
   \<and> \<not> isWordChar (last (str ''win the '')) \<and> \<not> isWordChar (hd (str '' now''))
   \<and> fst (validateField asciiRuntime (VALIDATION_RULES asciiRuntime) (str ''message'') spamMessage)
       = \<lparr>valid = False, error = Some (str ''Message contains prohibited content''),
          sanitizedValue = spamMessage\<rparr>
   \<and> sanitize_collapse linkMessage \<noteq> [] \<and> length (sanitize_collapse linkMessage) \<le> 1000
   \<and> 2 < urlCount (sanitize_collapse linkMessage)
   \<and> fst (validateField asciiRuntime (VALIDATION_RULES asciiRuntime) (str ''message'') linkMessage)
       = \<lparr>valid = False, error = Some (str ''Message contains too many links''),
          sanitizedValue = linkMessage\<rparr>"
proof -
  have s1: "sanitize_collapse spamMessage = spamMessage"
    and s2: "sanitize_collapse linkMessage = linkMessage"
    by code_simp+
  have n1: "spamMessage \<noteq> []" "length spamMessage \<le> 1000"
    and n2: "linkMessage \<noteq> []" "length linkMessage \<le> 1000"
    by (simp_all add: spamMessage_def linkMessage_def str_def)
  have "(case string_match url_pattern spamMessage of None \<Rightarrow> 0 | Some urls \<Rightarrow> length urls) \<le> 2"
    and "2 < (case string_match url_pattern linkMessage of None \<Rightarrow> 0 | Some urls \<Rightarrow> length urls)"
    by code_simp+
  then have u1: "urlCount spamMessage \<le> 2" and u2: "2 < urlCount linkMessage"
    by (simp_all only: url_count)
  have d: "spamMessage = str ''win the '' @ str ''LOTTERY'' @ str '' now''"
    "map asciiLower (str ''LOTTERY'') = str ''lottery''"
    "\<not> isWordChar (last (str ''win the ''))" "\<not> isWordChar (hd (str '' now''))"
    by code_simp+
  have "str ''lottery'' \<in> set spamKeywords"
    by (simp add: spamKeywords_def)
  with d have w: "containsSpamWord spamMessage"
    unfolding containsSpamWord_def by metis
  from C7_message_spam_check [of spamMessage asciiRuntime] n1 u1 w
  have r1: "fst (validateField asciiRuntime (VALIDATION_RULES asciiRuntime) (str ''message'') spamMessage)
       = \<lparr>valid = False, error = Some (str ''Message contains prohibited content''),
          sanitizedValue = spamMessage\<rparr>"
    unfolding s1 by blast
  from C7_message_spam_check [of linkMessage asciiRuntime] n2 u2
  have r2: "fst (validateField asciiRuntime (VALIDATION_RULES asciiRuntime) (str ''message'') linkMessage)
       = \<lparr>valid = False, error = Some (str ''Message contains too many links''),
          sanitizedValue = linkMessage\<rparr>"
    unfolding s2 by blast
  from n1 n2 u1 u2 d r1 r2 show ?thesis unfolding s1 s2 by (intro conjI)
qed

section \<open>Scenarios\<close>

text \<open>
  The scenarios that the specification lists for the two evaluators, on the model.
\<close>

lemma scenario_email_sanitized:
  "fst (validateField asciiRuntime (VALIDATION_RULES asciiRuntime) (str ''email'')
          (str ''  USER@Example.com ''))
     = \<lparr>valid = True, error = None, sanitizedValue = str ''user@example.com''\<rparr>"
  by code_simp

lemma scenario_email_dots:
  "fst (validateField asciiRuntime (VALIDATION_RULES asciiRuntime) (str ''email'')
          (str ''a..b@example.com''))
     = \<lparr>valid = False, error = Some (str ''Email cannot contain consecutive dots''),
        sanitizedValue = str ''a..b@example.com''\<rparr>"
  by code_simp

lemma scenario_phone_short:
  "fst (validateField asciiRuntime (VALIDATION_RULES asciiRuntime) (str ''phone'') (str ''123''))
     = \<lparr>valid = False, error = Some (str ''Phone must be at least 10 characters''),
        sanitizedValue = str ''123''\<rparr>"
  by code_simp

lemma scenario_service_unknown:
  "fst (validateField asciiRuntime (VALIDATION_RULES asciiRuntime) (str ''service'')
          (str ''laundry''))
     = \<lparr>valid = False, error = Some (str ''Please select a valid service option''),
        sanitizedValue = str ''laundry''\<rparr>"
  by code_simp

lemma scenario_form_valid:
  "fst (validateForm asciiRuntime (VALIDATION_RULES asciiRuntime)
          [(str ''name'', str ''Jo''), (str ''email'', str ''jo@x.com''),
           (str ''phone'', str ''555-123-4567''), (str ''service'', str ''ac-repair''),
           (str ''message'', [])])
     = \<lparr>isValid = True, errors = [],
        sanitizedData =
          [(str ''name'', str ''Jo''), (str ''email'', str ''jo@x.com''),
           (str ''phone'', str ''555-123-4567''), (str ''service'', str ''ac-repair''),
           (str ''message'', [])]\<rparr>"
  by code_simp

lemma scenario_form_invalid:
  "fst (validateForm asciiRuntime (VALIDATION_RULES asciiRuntime)
          [(str ''name'', []), (str ''email'', str ''bad''), (str ''phone'', str ''1''),
           (str ''service'', []), (str ''message'', [])])
     = \<lparr>isValid = False,
        errors =
          [(str ''name'', Some (str ''Name is required'')),
           (str ''email'', Some (str ''Please enter a valid email address'')),
           (str ''phone'', Some (str ''Phone must be at least 10 characters'')),
           (str ''service'', Some (str ''Service is required''))],
        sanitizedData =
          [(str ''name'', []), (str ''email'', str ''bad''), (str ''phone'', str ''1''),
           (str ''service'', []), (str ''message'', [])]\<rparr>"
  by code_simp

end
